theory Spec2Isabelle
  imports Complex_Main "HOL-Library.Char_ord" "HOL-Library.List_Lexorder" "HOL-Library.Sublist"
begin

section \<open>Strings of the Python runtime\<close>

text \<open>
  The driver in \<^verbatim>\<open>rclone.py\<close> builds argument vectors and small text files from
  strings. The few string operations of Python it uses are given here: \<^verbatim>\<open>sep.join(xs)\<close>,
  \<^verbatim>\<open>s.split(c)\<close> for a one-character separator, \<^verbatim>\<open>s.startswith(p)\<close>,
  \<^verbatim>\<open>s.strip()\<close>, \<^verbatim>\<open>s.rstrip()\<close> (on the ASCII white space) and \<^verbatim>\<open>str(n)\<close>
  for a natural number.
\<close>

definition newline :: string where
  "newline = [CHR 0x0A]"

fun join :: "string \<Rightarrow> string list \<Rightarrow> string" where
  "join sep [] = []"
| "join sep [x] = x"
| "join sep (x # y # ys) = x @ sep @ join sep (y # ys)"

fun str_split :: "char \<Rightarrow> string \<Rightarrow> string list" where
  "str_split c [] = [[]]"
| "str_split c (x # xs) =
     (if x = c then [] # str_split c xs
      else (case str_split c xs of
              [] \<Rightarrow> [[x]]
            | p # ps \<Rightarrow> (x # p) # ps))"

definition startswith :: "string \<Rightarrow> string \<Rightarrow> bool" where
  "startswith s p = (take (length p) s = p)"

definition isspace :: "char \<Rightarrow> bool" where
  "isspace c = (c \<in> set [CHR 0x09, CHR 0x0A, CHR 0x0B, CHR 0x0C, CHR 0x0D,
                          CHR 0x1C, CHR 0x1D, CHR 0x1E, CHR 0x1F, CHR 0x20])"

definition rstrip :: "string \<Rightarrow> string" where
  "rstrip s = rev (dropWhile isspace (rev s))"

definition strip :: "string \<Rightarrow> string" where
  "strip s = dropWhile isspace (rstrip s)"

definition digit_char :: "nat \<Rightarrow> char" where
  "digit_char d = char_of (48 + d)"

fun str_nat_aux :: "nat \<Rightarrow> nat \<Rightarrow> string \<Rightarrow> string" where
  "str_nat_aux 0 n acc = acc"
| "str_nat_aux (Suc fuel) n acc =
     (if n < 10 then digit_char n # acc
      else str_nat_aux fuel (n div 10) (digit_char (n mod 10) # acc))"

definition str_nat :: "nat \<Rightarrow> string" where
  "str_nat n = str_nat_aux (Suc n) n []"

text \<open>
  \<^verbatim>\<open>readlines\<close> is the loop \<^verbatim>\<open>for line in iter(proc.stdout.readline, b"")\<close> of
  \<^verbatim>\<open>call\<close> in stream mode: the text is cut after every newline, a last piece without
  a newline is a line too, and every line is right-stripped.
\<close>

definition readlines :: "string \<Rightarrow> string list" where
  "readlines s =
     (let ps = str_split (CHR 0x0A) s
      in map rstrip (if last ps = [] then butlast ps else ps))"

section \<open>Configuration, driver state and errors\<close>

datatype side = A | B

definition side_str :: "side \<Rightarrow> string" where
  "side_str s = (case s of A \<Rightarrow> ''A'' | B \<Rightarrow> ''B'')"

text \<open>
  The options of the configuration object that \<^verbatim>\<open>rclone.py\<close> reads.
  \<^verbatim>\<open>rclone_exe\<close> is held already split into words (\<^verbatim>\<open>shlex.split\<close>); an option
  that may be \<^verbatim>\<open>None\<close> is an \<open>option\<close>.
\<close>

record config =
  name :: string
  now :: string
  tempdir :: string
  remoteA :: string
  remoteB :: string
  workdirA :: string
  workdirB :: string
  rclone_exe :: "string list"
  rclone_flags :: "string list"
  rclone_flagsA :: "string list"
  rclone_flagsB :: "string list"
  filter_flags :: "string list"
  compare :: string
  renamesA :: "string option"
  renamesB :: "string option"
  reuse_hashesA :: bool
  reuse_hashesB :: bool
  conflict_mode :: "string option"
  always_get_mtime :: bool
  reset_state :: bool
  backup :: bool
  backup_with_copy :: "bool option"

text \<open>\<^verbatim>\<open>getattr(config, f"remote{AB}")\<close> and its siblings.\<close>

definition remote :: "config \<Rightarrow> side \<Rightarrow> string" where
  "remote cfg s = (case s of A \<Rightarrow> remoteA cfg | B \<Rightarrow> remoteB cfg)"

definition workdir :: "config \<Rightarrow> side \<Rightarrow> string" where
  "workdir cfg s = (case s of A \<Rightarrow> workdirA cfg | B \<Rightarrow> workdirB cfg)"

definition rclone_flagsAB :: "config \<Rightarrow> side \<Rightarrow> string list" where
  "rclone_flagsAB cfg s = (case s of A \<Rightarrow> rclone_flagsA cfg | B \<Rightarrow> rclone_flagsB cfg)"

definition renames :: "config \<Rightarrow> side \<Rightarrow> string option" where
  "renames cfg s = (case s of A \<Rightarrow> renamesA cfg | B \<Rightarrow> renamesB cfg)"

definition reuse_hashes :: "config \<Rightarrow> side \<Rightarrow> bool" where
  "reuse_hashes cfg s = (case s of A \<Rightarrow> reuse_hashesA cfg | B \<Rightarrow> reuse_hashesB cfg)"

text \<open>
  The checks of \<^verbatim>\<open>Config.validate\<close> in \<^verbatim>\<open>cli.py\<close> on the three options the
  listing command depends on (after the deprecated \<^verbatim>\<open>_tag\<close> suffix of
  \<^verbatim>\<open>conflict_mode\<close> has been cut off).
\<close>

definition validated :: "config \<Rightarrow> bool" where
  "validated cfg =
     (compare cfg \<in> set [''size'', ''mtime'', ''hash''] \<and>
      renamesA cfg \<in> set [Some ''size'', Some ''mtime'', Some ''hash'', None] \<and>
      renamesB cfg \<in> set [Some ''size'', Some ''mtime'', Some ''hash'', None] \<and>
      conflict_mode cfg \<in> set [Some ''tag'', None, Some ''A'', Some ''B'', Some ''older'',
                                 Some ''newer'', Some ''smaller'', Some ''larger''])"

text \<open>
  A value handed to \<^verbatim>\<open>log\<close>: a string, or a list of strings (the command of a failed
  call). One log entry is the list of the arguments of one \<^verbatim>\<open>log(...)\<close>.
  \<^verbatim>\<open>debug(...)\<close> output is not part of the state.
\<close>

datatype logarg = Str string | Lst "string list"

text \<open>
  What the program can raise. \<^verbatim>\<open>CalledProcessError\<close> carries the exit code, the
  command, the collected output and the collected standard error.
\<close>

datatype error =
    CalledProcessError int "string list" string string
  | LockedRemoteError string
  | RcloneVersionError string
  | ConfigError string
  | ValueError string
  | UnboundLocalError string
  | TypeError string
  | AttributeError string
  | IndexError
  | JSONDecodeError
  | ReadError

text \<open>
  The answer of one run of the agent: its exit code and the text of its two streams. With
  \<^verbatim>\<open>stream=True\<close> the child writes standard error into standard output; then
  \<open>stdout\<close> is the merged text and \<open>stderr\<close> is not read.
  The agent is a function of the commands run so far and of the command.
\<close>

record proc =
  returncode :: int
  stdout :: string
  stderr :: string

type_synonym agent = "string list list \<Rightarrow> string list \<Rightarrow> proc"

text \<open>
  A value read by \<^verbatim>\<open>json.loads\<close>. An object is the list of its keys and values; as in a
  Python dict, a key occurs once.
\<close>

datatype json =
    JNull
  | JBool bool
  | JNum rat
  | JStr string
  | JArr "json list"
  | JObj "(string \<times> json) list"

text \<open>
  The state of the driver and what it has done to the outside: the attribute
  \<^verbatim>\<open>add_args\<close>, the commands run (oldest first), the text files written
  (path and text, oldest first), the log entries, and the cache of the memoized feature
  probe.
\<close>

record state =
  add_args :: "string list"
  calls :: "string list list"
  written :: "(string \<times> string) list"
  logged :: "logarg list list"
  probed :: "side \<Rightarrow> json option"

definition log_msg :: "logarg list \<Rightarrow> state \<Rightarrow> state" where
  "log_msg args s = s\<lparr>logged := logged s @ [args]\<rparr>"

definition write_file :: "string \<Rightarrow> string \<Rightarrow> state \<Rightarrow> state" where
  "write_file path txt s = s\<lparr>written := written s @ [(path, txt)]\<rparr>"

section \<open>Running the agent: \<^verbatim>\<open>Rclone.call\<close>\<close>

text \<open>
  \<^verbatim>\<open>call(cmd, stream, logstderr, display_error)\<close>. The command is run behind the
  words of \<^verbatim>\<open>rclone_exe\<close>. In stream mode every line read is logged and the lines
  are joined again; otherwise both streams are read back from their files and a non-empty
  standard error is logged when \<^verbatim>\<open>logstderr\<close> is set. A non-zero exit code raises
  \<^verbatim>\<open>CalledProcessError\<close>, after the error display when \<^verbatim>\<open>display_error\<close> is set.
  The running time, the environment of the child and the progress lines of
  \<^verbatim>\<open>fl_remote\<close> (which depend on the clock) are not part of the state.
\<close>

definition call ::
  "config \<Rightarrow> agent \<Rightarrow> string list \<Rightarrow> bool \<Rightarrow> bool \<Rightarrow> bool \<Rightarrow> state \<Rightarrow> (error + string) \<times> state"
where
  "call cfg ag cmd0 stream logstderr display_error s =
     (let cmd = rclone_exe cfg @ cmd0;
          p = ag (calls s) cmd;
          s1 = s\<lparr>calls := calls s @ [cmd]\<rparr>;
          ls = readlines (stdout p);
          out = (if stream then join newline ls else stdout p);
          err = (if stream then [] else stderr p);
          s2 = (if stream then s1\<lparr>logged := logged s1 @ map (\<lambda>l. [Str ''rclone:'', Str l]) ls\<rparr>
                else if err \<noteq> [] \<and> logstderr then log_msg [Str '' rclone stderr:'', Str err] s1
                else s1)
      in if returncode p \<noteq> 0 then
           (Inl (CalledProcessError (returncode p) cmd out err),
            if display_error then
              (let s3 = log_msg [Str ''CMD'', Lst cmd] (log_msg [Str ''RCLONE ERROR''] s2)
               in if stream then log_msg [Str ''STDOUT and STDERR'', Str out] s3
                  else log_msg [Str ''STDERR'', Str (strip err)]
                         (log_msg [Str ''STDOUT'', Str (strip out)] s3))
            else s2)
         else (Inr (if \<not> logstderr then out @ newline @ err else out), s2))"

section \<open>Transfers: \<^verbatim>\<open>Rclone.transfer\<close>\<close>

text \<open>
  The direction: \<^verbatim>\<open>src, dst\<close> are bound only for the modes \<^verbatim>\<open>A2B\<close> and
  \<^verbatim>\<open>B2A\<close>; for any other mode the first use of \<^verbatim>\<open>src\<close> raises.
\<close>

definition transfer_src_dst :: "config \<Rightarrow> string \<Rightarrow> (string \<times> string) option" where
  "transfer_src_dst cfg mode =
     (if mode = ''A2B'' then Some (remoteA cfg, remoteB cfg)
      else if mode = ''B2A'' then Some (remoteB cfg, remoteA cfg)
      else None)"

definition transfer_cmd :: "config \<Rightarrow> state \<Rightarrow> string list" where
  "transfer_cmd cfg s =
     [''copy'', ''-v'', ''--stats-one-line'', ''--log-format'', ''''] @ rclone_flags cfg @ add_args s"

text \<open>The block \<^verbatim>\<open>if diff_size:\<close>.\<close>

definition transfer_diff_size ::
  "config \<Rightarrow> agent \<Rightarrow> string \<Rightarrow> string list \<Rightarrow> state \<Rightarrow> (error + unit) \<times> state"
where
  "transfer_diff_size cfg ag mode diff_size s =
     (let cmddiff = transfer_cmd cfg s @ [''--size-only''];
          cmddiff = (if length diff_size \<le> 100 then cmddiff @ [''--no-traverse''] else cmddiff);
          tmpfile = tempdir cfg @ mode @ ''_transfer-diff_size'';
          s1 = write_file tmpfile (join newline diff_size) s
      in case transfer_src_dst cfg mode of
           None \<Rightarrow> (Inl (UnboundLocalError ''src''), s1)
         | Some (src, dst) \<Rightarrow>
             (case call cfg ag (cmddiff @ [''--files-from'', tmpfile, src, dst]) True True True s1 of
                (Inl e, s2) \<Rightarrow> (Inl e, s2)
              | (Inr _, s2) \<Rightarrow> (Inr (), s2)))"

text \<open>The block \<^verbatim>\<open>if matched_size:\<close>.\<close>

definition transfer_matched_size ::
  "config \<Rightarrow> agent \<Rightarrow> string \<Rightarrow> string list \<Rightarrow> state \<Rightarrow> (error + unit) \<times> state"
where
  "transfer_matched_size cfg ag mode matched_size s =
     (case (if compare cfg = ''hash'' then Inr (transfer_cmd cfg s @ [''--checksum''])
            else if compare cfg = ''size'' then Inl (ValueError ''This should NOT HAPPEN'')
            else Inr (transfer_cmd cfg s)) of
        Inl e \<Rightarrow> (Inl e, s)
      | Inr cmdmatch0 \<Rightarrow>
          (let cmdmatch = (if length matched_size \<le> 100 then cmdmatch0 @ [''--no-traverse'']
                           else cmdmatch0);
               tmpfile = tempdir cfg @ mode @ ''_transfer-matched_size'';
               s1 = write_file tmpfile (join newline matched_size) s
           in case transfer_src_dst cfg mode of
                None \<Rightarrow> (Inl (UnboundLocalError ''src''), s1)
              | Some (src, dst) \<Rightarrow>
                  (case call cfg ag (cmdmatch @ [''--files-from'', tmpfile, src, dst])
                          True True True s1 of
                     (Inl e, s2) \<Rightarrow> (Inl e, s2)
                   | (Inr _, s2) \<Rightarrow> (Inr (), s2))))"

definition transfer ::
  "config \<Rightarrow> agent \<Rightarrow> string \<Rightarrow> string list \<Rightarrow> string list \<Rightarrow> state \<Rightarrow> (error + unit) \<times> state"
where
  "transfer cfg ag mode matched_size diff_size s =
     (if matched_size = [] \<and> diff_size = [] then (Inr (), s)
      else
        (case (if diff_size \<noteq> [] then transfer_diff_size cfg ag mode diff_size s
               else (Inr (), s)) of
           (Inl e, s1) \<Rightarrow> (Inl e, s1)
         | (Inr _, s1) \<Rightarrow>
             (if matched_size \<noteq> [] then transfer_matched_size cfg ag mode matched_size s1
              else (Inr (), s1))))"


section \<open>The prior listing: \<^verbatim>\<open>Rclone.pull_prev_list\<close>\<close>

text \<open>
  A file entry of a listing, with the attributes the program reads: \<^verbatim>\<open>Path\<close>,
  \<^verbatim>\<open>Size\<close>, \<^verbatim>\<open>mtime\<close> (seconds since the epoch; \<open>None\<close> is Python's
  \<^verbatim>\<open>None\<close>) and \<^verbatim>\<open>Hashes\<close> (\<open>None\<close> when the key is absent; the map from
  algorithm to digest otherwise, which may be empty). Other keys of the JSON objects are read
  by no code here and are left out.
\<close>

record entry =
  Path :: string
  Size :: int
  mtime :: "rat option"
  Hashes :: "(string \<times> string) list option"

text \<open>
  \<^verbatim>\<open>os.path.join\<close> on two POSIX paths: an absolute second path wins, and a slash is
  put between the two unless the first is empty or ends with one.
\<close>

definition os_path_join :: "string \<Rightarrow> string \<Rightarrow> string" where
  "os_path_join a b =
     (if startswith b ''/'' then b
      else if a = [] \<or> last a = CHR ''/'' then a @ b
      else a @ ''/'' @ b)"

text \<open>
  What \<^verbatim>\<open>lzma.open(dst)\<close> and \<^verbatim>\<open>json.load\<close> find at the local path after the
  copy: no file, a file that cannot be read as a listing, or a listing.
\<close>

datatype prev_file = FileNotFound | Unreadable | Loaded "entry list"

text \<open>
  \<^verbatim>\<open>pull_prev_list(remote=AB)\<close>. \<^verbatim>\<open>utils.pathjoin\<close> is not among the sources; it is
  the parameter \<open>pathjoin\<close>. \<open>load\<close> is the local file system seen through
  \<^verbatim>\<open>lzma.open\<close> and \<^verbatim>\<open>json.load\<close>. The agent is called in capture mode with
  \<^verbatim>\<open>display_error=False, logstderr=False\<close>.
\<close>

definition pull_prev_list ::
  "(string \<Rightarrow> string \<Rightarrow> string) \<Rightarrow> (string \<Rightarrow> prev_file) \<Rightarrow> config \<Rightarrow> agent \<Rightarrow> side \<Rightarrow> state
     \<Rightarrow> (error + entry list) \<times> state"
where
  "pull_prev_list pathjoin load cfg ag AB s =
     (let src = pathjoin (workdir cfg AB) (side_str AB @ ''-'' @ name cfg @ ''_fl.json.xz'');
          dst = os_path_join (tempdir cfg) (side_str AB @ ''_prev'');
          cmd = rclone_flags cfg @ add_args s @ rclone_flagsAB cfg AB
                  @ [''--retries'', ''1'', ''copyto'', src, dst]
      in case call cfg ag cmd False False False s of
           (Inl (CalledProcessError rc c out err), s1) \<Rightarrow>
             (if rc \<in> {3, 4} then
                (Inr [], log_msg [Str (''No previous list on '' @ side_str AB @ ''. Reset state'')] s1)
              else
                (Inr [], log_msg [Str (''WARNING: Unexpected rclone return. Resetting state in ''
                                        @ side_str AB)] s1))
         | (Inl e, s1) \<Rightarrow> (Inl e, s1)
         | (Inr _, s1) \<Rightarrow>
             (case load dst of
                Loaded prev \<Rightarrow> (Inr prev, s1)
              | FileNotFound \<Rightarrow>
                  (Inr [], log_msg [Str (''WARNING: Missing previous state in '' @ side_str AB
                                          @ ''. Resetting'')] s1)
              | Unreadable \<Rightarrow> (Inl ReadError, s1)))"

section \<open>Locks: \<^verbatim>\<open>Rclone.check_lock\<close>\<close>

text \<open>\<^verbatim>\<open>check_lock(AB)\<close> for one side, and \<^verbatim>\<open>check_lock("both")\<close>.\<close>

definition check_lock ::
  "(string \<Rightarrow> string \<Rightarrow> string) \<Rightarrow> config \<Rightarrow> agent \<Rightarrow> side \<Rightarrow> state \<Rightarrow> (error + bool) \<times> state"
where
  "check_lock pathjoin cfg ag AB s =
     (let lockdest = pathjoin (workdir cfg AB) (''LOCK/LOCK_'' @ name cfg);
          cmd = rclone_flags cfg @ add_args s @ rclone_flagsAB cfg AB
                  @ [''--retries'', ''1'', ''lsf'', lockdest]
      in case call cfg ag cmd False False False s of
           (Inl (CalledProcessError rc c out err), s1) \<Rightarrow>
             (if rc \<in> {3, 4} then (Inr True, s1)
              else (Inl (CalledProcessError rc c out err), s1))
         | (Inl e, s1) \<Rightarrow> (Inl e, s1)
         | (Inr _, s1) \<Rightarrow>
             (Inl (LockedRemoteError (''Locked on '' @ side_str AB @ '', '' @ lockdest)), s1))"

definition check_lock_both ::
  "(string \<Rightarrow> string \<Rightarrow> string) \<Rightarrow> config \<Rightarrow> agent \<Rightarrow> state \<Rightarrow> (error + unit) \<times> state"
where
  "check_lock_both pathjoin cfg ag s =
     (case check_lock pathjoin cfg ag A s of
        (Inl e, s1) \<Rightarrow> (Inl e, s1)
      | (Inr _, s1) \<Rightarrow>
          (case check_lock pathjoin cfg ag B s1 of
             (Inl e, s2) \<Rightarrow> (Inl e, s2)
           | (Inr _, s2) \<Rightarrow> (Inr (), s2)))"

section \<open>Construction and the version gate\<close>















text \<open>
  \<^verbatim>\<open>self.backup_path[AB]\<close>, and \<^verbatim>\<open>Rclone.__init__\<close>: a new driver with no extra
  arguments, nothing run and an empty probe cache; the flags are validated, then the
  version is checked. Making the temporary directory is not part of the state.
\<close>

definition backup_path :: "(string \<Rightarrow> string \<Rightarrow> string) \<Rightarrow> config \<Rightarrow> side \<Rightarrow> string" where
  "backup_path pathjoin cfg AB =
     pathjoin (workdir cfg AB) (''backups/'' @ now cfg @ ''_'' @ name cfg @ ''_'' @ side_str AB)"

definition new_state :: state where
  "new_state = \<lparr>add_args = [], calls = [], written = [], logged = [], probed = (\<lambda>_. None)\<rparr>"


section \<open>Listing acquisition: \<^verbatim>\<open>Rclone.file_list\<close>\<close>

text \<open>
  One object of the agent's \<^verbatim>\<open>lsjson\<close> output, with the keys the program keeps or
  reads: \<^verbatim>\<open>Path\<close>, \<^verbatim>\<open>Size\<close>, \<^verbatim>\<open>ModTime\<close> (absent or a string) and
  \<^verbatim>\<open>Hashes\<close> (absent or a map).
\<close>

record lsitem =
  item_Path :: string
  item_Size :: int
  ModTime :: "string option"
  item_Hashes :: "(string \<times> string) list option"

text \<open>
  The loop over the parsed listing: \<^verbatim>\<open>ModTime\<close> is popped and \<^verbatim>\<open>mtime\<close> is set to
  \<^verbatim>\<open>utils.RFC3339_to_unix(mtime) if mtime else None\<close>. \<^verbatim>\<open>RFC3339_to_unix\<close> is not
  among the sources; it is a parameter, and \<open>None\<close> stands for its raising.
\<close>

fun to_entries :: "(string \<Rightarrow> rat option) \<Rightarrow> lsitem list \<Rightarrow> error + entry list" where
  "to_entries RFC3339_to_unix [] = Inr []"
| "to_entries RFC3339_to_unix (f # fs) =
     (case (if ModTime f = None \<or> ModTime f = Some [] then Inr None
            else (case RFC3339_to_unix (the (ModTime f)) of
                    None \<Rightarrow> Inl (ValueError ''RFC3339_to_unix'')
                  | Some t \<Rightarrow> Inr (Some t))) of
        Inl e \<Rightarrow> Inl e
      | Inr mt \<Rightarrow>
          (case to_entries RFC3339_to_unix fs of
             Inl e \<Rightarrow> Inl e
           | Inr es \<Rightarrow> Inr (\<lparr>Path = item_Path f, Size = item_Size f, mtime = mt,
                              Hashes = item_Hashes f\<rparr> # es)))"

text \<open>
  Modelled from the spec: \<^verbatim>\<open>dicttable.py\<close> (the class \<^verbatim>\<open>DictTable\<close>) is not among the
  sources. Section 4.1 of the specification: a listing table is a set of file entries with
  unique \<^verbatim>\<open>Path\<close>; \<^verbatim>\<open>get(query)\<close> returns the entry matching all key/value pairs of
  the query, or none; an entry is annotated by looking it up by \<^verbatim>\<open>Path\<close> and amending
  its \<^verbatim>\<open>Hashes\<close> field. The table is the list of its entries, iterated in list order;
  \<open>DictTable_get\<close> is the query on \<^verbatim>\<open>Size\<close>, \<^verbatim>\<open>mtime\<close> and \<^verbatim>\<open>Path\<close>, and
  \<open>DictTable_set_Hashes\<close> is \<^verbatim>\<open>files[{"Path": p}]["Hashes"] = h\<close>, which raises when no
  entry has that path (the query returns \<^verbatim>\<open>None\<close>).
\<close>

definition DictTable_get :: "entry list \<Rightarrow> int \<Rightarrow> rat option \<Rightarrow> string \<Rightarrow> entry option" where
  "DictTable_get tbl sz mt p = find (\<lambda>e. Size e = sz \<and> mtime e = mt \<and> Path e = p) tbl"

fun DictTable_set_Hashes ::
  "string \<Rightarrow> (string \<times> string) list \<Rightarrow> entry list \<Rightarrow> entry list option"
where
  "DictTable_set_Hashes p h [] = None"
| "DictTable_set_Hashes p h (f # fs) =
     (if Path f = p then Some (f\<lparr>Hashes := Some h\<rparr> # fs)
      else map_option ((#) f) (DictTable_set_Hashes p h fs))"

text \<open>The first listing command, up to \<^verbatim>\<open>cmd.append(remote)\<close>.\<close>

definition file_list_cmd :: "config \<Rightarrow> state \<Rightarrow> side \<Rightarrow> string list" where
  "file_list_cmd cfg s AB =
     (let compute_hashes = (compare cfg = ''hash'' \<or> renames cfg AB = Some ''hash'');
          reuse = (compute_hashes \<and> reuse_hashes cfg AB);
          cmd = [''lsjson'', ''--filter'', ''+ /.syncrclone/LOCK/*'', ''--filter'',
                 ''- /.syncrclone/**''];
          cmd = (if compute_hashes \<and> \<not> reuse then cmd @ [''--hash''] else cmd);
          cmd = (if \<not> always_get_mtime cfg \<and>
                    \<not> (compare cfg = ''mtime'' \<or> renames cfg AB = Some ''mtime'' \<or>
                       conflict_mode cfg \<in> {Some ''newer'', Some ''older''})
                 then cmd @ [''--no-modtime''] else cmd)
      in cmd @ rclone_flags cfg @ add_args s @ rclone_flagsAB cfg AB @ filter_flags cfg
           @ [''-R'', ''--no-mimetype'', ''--files-only''] @ [remote cfg AB])"

text \<open>
  The reuse loop: for every current entry the prior table is asked for the entry with the
  same \<^verbatim>\<open>Size\<close>, \<^verbatim>\<open>mtime\<close> and \<^verbatim>\<open>Path\<close>. When there is none, or it has no
  \<^verbatim>\<open>Hashes\<close> key, or its \<^verbatim>\<open>mtime\<close> is false in Python's sense (\<^verbatim>\<open>None\<close> or zero),
  the path goes to \<^verbatim>\<open>not_hashed\<close>; otherwise the entry takes the prior \<^verbatim>\<open>Hashes\<close>.
\<close>

fun reuse_loop :: "entry list \<Rightarrow> entry list \<Rightarrow> entry list \<times> string list" where
  "reuse_loop prev_list [] = ([], [])"
| "reuse_loop prev_list (f # fs) =
     (let (fs', not_hashed) = reuse_loop prev_list fs
      in case DictTable_get prev_list (Size f) (mtime f) (Path f) of
           None \<Rightarrow> (f # fs', Path f # not_hashed)
         | Some prev \<Rightarrow>
             if Hashes prev = None \<or> mtime prev = None \<or> mtime prev = Some 0
             then (f # fs', Path f # not_hashed)
             else (f\<lparr>Hashes := Hashes prev\<rparr> # fs', not_hashed))"

text \<open>The loop over the second listing: every object with a \<^verbatim>\<open>Hashes\<close> key is merged.\<close>

fun merge_hashes :: "lsitem list \<Rightarrow> entry list \<Rightarrow> error + entry list" where
  "merge_hashes [] files = Inr files"
| "merge_hashes (u # us) files =
     (case item_Hashes u of
        None \<Rightarrow> merge_hashes us files
      | Some h \<Rightarrow>
          (case DictTable_set_Hashes (item_Path u) h files of
             None \<Rightarrow> Inl (TypeError ''NoneType object does not support item assignment'')
           | Some files' \<Rightarrow> merge_hashes us files'))"

text \<open>
  The part of \<^verbatim>\<open>file_list\<close> after the early return: the reuse loop, and the second
  listing for the paths it left. \<open>loads\<close> is \<^verbatim>\<open>json.loads\<close> on a listing (\<open>None\<close> when
  it raises).
\<close>

definition file_list_hashes ::
  "(string \<Rightarrow> lsitem list option) \<Rightarrow> config \<Rightarrow> agent \<Rightarrow> side \<Rightarrow> entry list \<Rightarrow> entry list \<Rightarrow> state
     \<Rightarrow> (error + entry list \<times> entry list) \<times> state"
where
  "file_list_hashes loads cfg ag AB files prev_list s =
     (let (files', not_hashed) = reuse_loop prev_list files
      in if length not_hashed = 0 then (Inr (files', prev_list), s)
         else
           (let tmpfile = tempdir cfg @ ''/'' @ side_str AB @ ''_update_hash'';
                s1 = write_file tmpfile (join newline not_hashed) s;
                cmd = [''lsjson'', ''--hash'', ''--files-from'', tmpfile]
                        @ rclone_flags cfg @ add_args s @ rclone_flagsAB cfg AB
                        @ [''-R'', ''--no-mimetype'', ''--files-only''] @ [remote cfg AB]
            in case call cfg ag cmd False True True s1 of
                 (Inl e, s2) \<Rightarrow> (Inl e, s2)
               | (Inr out, s2) \<Rightarrow>
                   (case loads out of
                      None \<Rightarrow> (Inl JSONDecodeError, s2)
                    | Some updated \<Rightarrow>
                        (case merge_hashes updated files' of
                           Inl e \<Rightarrow> (Inl e, s2)
                         | Inr files'' \<Rightarrow> (Inr (files'', prev_list), s2)))))"

text \<open>\<^verbatim>\<open>file_list(remote=AB)\<close>; the prior listing is always pulled here unless the state
  is reset.\<close>

definition file_list ::
  "(string \<Rightarrow> lsitem list option) \<Rightarrow> (string \<Rightarrow> rat option) \<Rightarrow> (string \<Rightarrow> string \<Rightarrow> string)
     \<Rightarrow> (string \<Rightarrow> prev_file) \<Rightarrow> config \<Rightarrow> agent \<Rightarrow> side \<Rightarrow> state
     \<Rightarrow> (error + entry list \<times> entry list) \<times> state"
where
  "file_list loads RFC3339_to_unix pathjoin load cfg ag AB s =
     (let compute_hashes = (compare cfg = ''hash'' \<or> renames cfg AB = Some ''hash'');
          cmd = file_list_cmd cfg s AB
      in case call cfg ag cmd False True True s of
           (Inl e, s1) \<Rightarrow> (Inl e, s1)
         | (Inr files_raw, s1) \<Rightarrow>
             (case loads files_raw of
                None \<Rightarrow> (Inl JSONDecodeError, s1)
              | Some items \<Rightarrow>
                  (case to_entries RFC3339_to_unix items of
                     Inl e \<Rightarrow> (Inl e, s1)
                   | Inr files \<Rightarrow>
                       (case (if reset_state cfg then (Inr [], s1)
                              else pull_prev_list pathjoin load cfg ag AB s1) of
                          (Inl e, s2) \<Rightarrow> (Inl e, s2)
                        | (Inr prev_list, s2) \<Rightarrow>
                            if \<not> compute_hashes \<or> ''--hash'' \<in> set cmd
                            then (Inr (files, prev_list), s2)
                            else file_list_hashes loads cfg ag AB files prev_list s2))))"




section \<open>The feature probe: \<^verbatim>\<open>Rclone.features\<close>\<close>

text \<open>
  Modelled from the spec: \<^verbatim>\<open>utils.memoize\<close>, the decorator of \<^verbatim>\<open>features\<close>, is not
  among the sources. Sections 4.2, 5 and 9 of the specification: the feature probe is
  memoized per side; its cache is keyed by the side, populated on first use (at most once
  per side) and read-only thereafter. A call that raises stores nothing.
\<close>

definition memoize ::
  "(side \<Rightarrow> state \<Rightarrow> (error + json) \<times> state) \<Rightarrow> side \<Rightarrow> state \<Rightarrow> (error + json) \<times> state"
where
  "memoize f AB s =
     (case probed s AB of
        Some v \<Rightarrow> (Inr v, s)
      | None \<Rightarrow>
          (case f AB s of
             (Inl e, s1) \<Rightarrow> (Inl e, s1)
           | (Inr v, s1) \<Rightarrow> (Inr v, s1\<lparr>probed := (probed s1)(AB \<mapsto> v)\<rparr>)))"

text \<open>\<^verbatim>\<open>d.get(key, default)\<close> on a value: only an object has \<^verbatim>\<open>get\<close>.\<close>

definition dict_get :: "json \<Rightarrow> string \<Rightarrow> json \<Rightarrow> error + json" where
  "dict_get d k dflt =
     (case d of
        JObj kvs \<Rightarrow> (case map_of kvs k of None \<Rightarrow> Inr dflt | Some v \<Rightarrow> Inr v)
      | _ \<Rightarrow> Inl (AttributeError ''get''))"

text \<open>
  The body of \<^verbatim>\<open>features\<close>: one \<^verbatim>\<open>backend features\<close> call in capture mode, the reply
  read by \<^verbatim>\<open>json.loads\<close> (the parameter \<open>json_loads\<close>, \<open>None\<close> when it raises), and
  \<^verbatim>\<open>.get("Features", {})\<close>.
\<close>

definition features_body ::
  "(string \<Rightarrow> json option) \<Rightarrow> config \<Rightarrow> agent \<Rightarrow> side \<Rightarrow> state \<Rightarrow> (error + json) \<times> state"
where
  "features_body json_loads cfg ag AB s =
     (case call cfg ag ([''backend'', ''features'', remote cfg AB] @ rclone_flags cfg
                          @ rclone_flagsAB cfg AB) False True True s of
        (Inl e, s1) \<Rightarrow> (Inl e, s1)
      | (Inr out, s1) \<Rightarrow>
          (case json_loads out of
             None \<Rightarrow> (Inl JSONDecodeError, s1)
           | Some reply \<Rightarrow> (dict_get reply ''Features'' (JObj []), s1)))"

definition features ::
  "(string \<Rightarrow> json option) \<Rightarrow> config \<Rightarrow> agent \<Rightarrow> side \<Rightarrow> state \<Rightarrow> (error + json) \<times> state"
where
  "features json_loads cfg ag = memoize (features_body json_loads cfg ag)"

text \<open>\<^verbatim>\<open>copy_support\<close>, \<^verbatim>\<open>move_support\<close> and \<^verbatim>\<open>empty_dir_support\<close>:
  \<^verbatim>\<open>self.features(remote).get(key, default)\<close>.\<close>

definition feature_get ::
  "string \<Rightarrow> json \<Rightarrow> (string \<Rightarrow> json option) \<Rightarrow> config \<Rightarrow> agent \<Rightarrow> side \<Rightarrow> state
     \<Rightarrow> (error + json) \<times> state"
where
  "feature_get k dflt json_loads cfg ag AB s =
     (case features json_loads cfg ag AB s of
        (Inl e, s1) \<Rightarrow> (Inl e, s1)
      | (Inr f, s1) \<Rightarrow> (dict_get f k dflt, s1))"

definition copy_support ::
  "(string \<Rightarrow> json option) \<Rightarrow> config \<Rightarrow> agent \<Rightarrow> side \<Rightarrow> state \<Rightarrow> (error + json) \<times> state"
where
  "copy_support = feature_get ''Copy'' (JBool False)"

definition move_support ::
  "(string \<Rightarrow> json option) \<Rightarrow> config \<Rightarrow> agent \<Rightarrow> side \<Rightarrow> state \<Rightarrow> (error + json) \<times> state"
where
  "move_support = feature_get ''Move'' (JBool False)"

definition empty_dir_support ::
  "(string \<Rightarrow> json option) \<Rightarrow> config \<Rightarrow> agent \<Rightarrow> side \<Rightarrow> state \<Rightarrow> (error + json) \<times> state"
where
  "empty_dir_support = feature_get ''CanHaveEmptyDirectories'' (JBool True)"

text \<open>
  A caller that asks for the features of the given sides one after the other and stops at
  the first error.
\<close>

fun probe_all ::
  "(string \<Rightarrow> json option) \<Rightarrow> config \<Rightarrow> agent \<Rightarrow> side list \<Rightarrow> state \<Rightarrow> (error + unit) \<times> state"
where
  "probe_all json_loads cfg ag [] s = (Inr (), s)"
| "probe_all json_loads cfg ag (AB # rest) s =
     (case features json_loads cfg ag AB s of
        (Inl e, s1) \<Rightarrow> (Inl e, s1)
      | (Inr _, s1) \<Rightarrow> probe_all json_loads cfg ag rest s1)"

section \<open>Empty directories: \<^verbatim>\<open>Rclone.rmdirs\<close>\<close>

text \<open>
  The loop over \<^verbatim>\<open>sorted(dirlist)\<close>: a directory is skipped when it starts with a
  directory already kept followed by a slash, and kept otherwise. The first argument is
  the list \<^verbatim>\<open>rmdirs\<close> built so far. Python sorts strings by code point; \<open>sort\<close> is on
  the lexicographic order of the characters.
\<close>

fun rmdirs_loop :: "string list \<Rightarrow> string list \<Rightarrow> string list" where
  "rmdirs_loop rmdirs [] = rmdirs"
| "rmdirs_loop rmdirs (diritem # rest) =
     (if list_ex (\<lambda>rmdir. startswith diritem (rmdir @ ''/'')) rmdirs
      then rmdirs_loop rmdirs rest
      else rmdirs_loop (rmdirs @ [diritem]) rest)"

definition rmdirs_cmd :: "config \<Rightarrow> state \<Rightarrow> side \<Rightarrow> string list" where
  "rmdirs_cmd cfg s AB =
     rclone_flags cfg @ add_args s @ rclone_flagsAB cfg AB
       @ [''rmdirs'', ''-v'', ''--stats-one-line'', ''--log-format'', '''', ''--retries'', ''1'']"

text \<open>The lines of a result that are logged: \<^verbatim>\<open>res.split("\n")\<close>, stripped, the empty
  ones left out.\<close>

definition log_lines :: "string \<Rightarrow> state \<Rightarrow> state" where
  "log_lines res s =
     s\<lparr>logged := logged s
          @ map (\<lambda>l. [Str ''rclone:'', Str l])
              (filter (\<lambda>l. l \<noteq> []) (map strip (str_split (CHR 0x0A) res)))\<rparr>"

text \<open>
  One root: \<^verbatim>\<open>_rmdir\<close>, which turns a failed call into the text
  \<^verbatim>\<open><< could not delete >>\<close>, and the logging of its result. The worker pool is run
  in the order of the list; \<^verbatim>\<open>action_threads\<close> does not change which commands are run.
\<close>

definition rmdir_one ::
  "(string \<Rightarrow> string \<Rightarrow> string) \<Rightarrow> config \<Rightarrow> agent \<Rightarrow> side \<Rightarrow> string list \<Rightarrow> string \<Rightarrow> state \<Rightarrow> state"
where
  "rmdir_one pathjoin cfg ag AB cmd rmdir s =
     (case call cfg ag (cmd @ [pathjoin (remote cfg AB) rmdir]) False False True s of
        (r, s1) \<Rightarrow>
          log_lines (case r of Inl e \<Rightarrow> ''<< could not delete >>'' | Inr out \<Rightarrow> out)
            (log_msg [Str (''rmdirs (if possible) on '' @ side_str AB @ '': '' @ rmdir)] s1))"

definition rmdirs ::
  "(string \<Rightarrow> string \<Rightarrow> string) \<Rightarrow> config \<Rightarrow> agent \<Rightarrow> side \<Rightarrow> string list \<Rightarrow> state
     \<Rightarrow> (error + unit) \<times> state"
where
  "rmdirs pathjoin cfg ag AB dirlist s =
     (Inr (), fold (rmdir_one pathjoin cfg ag AB (rmdirs_cmd cfg s AB))
                (rmdirs_loop [] (sort dirlist)) s)"

section \<open>Renames: the moves of \<^verbatim>\<open>Rclone.delete_backup_move\<close>\<close>

text \<open>
  \<^verbatim>\<open>pathlib.Path(s)\<close> on a POSIX system: the root is one slash (or two, for a path that
  starts with exactly two), the other parts are the pieces between slashes, without the
  empty ones and the dots. \<open>parts\<close> is \<^verbatim>\<open>Path(s).parts\<close> and \<open>str_path\<close> is
  \<^verbatim>\<open>str(Path(s))\<close>.
\<close>

definition path_root :: "string \<Rightarrow> string" where
  "path_root s =
     (if startswith s ''//'' \<and> \<not> startswith s ''///'' then ''//''
      else if startswith s ''/'' then ''/''
      else [])"

definition path_tail :: "string \<Rightarrow> string list" where
  "path_tail s = filter (\<lambda>x. x \<noteq> [] \<and> x \<noteq> ''.'') (str_split (CHR ''/'') s)"

definition parts :: "string \<Rightarrow> string list" where
  "parts s = (if path_root s = [] then path_tail s else path_root s # path_tail s)"

definition str_path :: "string \<Rightarrow> string" where
  "str_path s =
     (if path_root s = [] \<and> path_tail s = [] then ''.''
      else path_root s @ join ''/'' (path_tail s))"

text \<open>\<^verbatim>\<open>os.path.join(*xs)\<close> for a tuple that is not empty; the code never joins an empty
  tuple without raising.\<close>

fun os_path_join_list :: "string list \<Rightarrow> string" where
  "os_path_join_list [] = []"
| "os_path_join_list (x # xs) = foldl os_path_join x xs"

fun zip_longest :: "'a list \<Rightarrow> 'b list \<Rightarrow> ('a option \<times> 'b option) list" where
  "zip_longest [] [] = []"
| "zip_longest (x # xs) [] = (Some x, None) # zip_longest xs []"
| "zip_longest [] (y # ys) = (None, Some y) # zip_longest [] ys"
| "zip_longest (x # xs) (y # ys) = (Some x, Some y) # zip_longest xs ys"

text \<open>
  The inner loop \<^verbatim>\<open>for ixdiv, (spart, dpart) in enumerate(zip_longest(...))\<close> with its
  \<^verbatim>\<open>break\<close>. The variable \<^verbatim>\<open>ixdiv\<close> keeps its value when the loop body never runs:
  the first argument is its value before the loop (\<open>None\<close> while it is unbound), the second
  the index of the next pair.
\<close>

fun ixdiv_loop :: "nat option \<Rightarrow> nat \<Rightarrow> ('a option \<times> 'a option) list \<Rightarrow> nat option" where
  "ixdiv_loop ixdiv i [] = ixdiv"
| "ixdiv_loop ixdiv i ((spart, dpart) # rest) =
     (if spart \<noteq> dpart then Some i else ixdiv_loop (Some i) (Suc i) rest)"

text \<open>\<^verbatim>\<open>move[srcdir, dstdir].append(file)\<close> on the \<^verbatim>\<open>defaultdict(list)\<close>, which keeps
  its keys in the order of their first use.\<close>

fun move_append ::
  "string \<times> string \<Rightarrow> string \<Rightarrow> ((string \<times> string) \<times> string list) list
     \<Rightarrow> ((string \<times> string) \<times> string list) list"
where
  "move_append k file [] = [(k, [file])]"
| "move_append k file ((k', files) # rest) =
     (if k' = k then (k', files @ [file]) # rest
      else (k', files) # move_append k file rest)"

text \<open>The loop \<^verbatim>\<open>for src, dst in moves\<close>, with \<^verbatim>\<open>ixdiv\<close>, \<^verbatim>\<open>moveto\<close> and
  \<^verbatim>\<open>move\<close> as they stand before the pair.\<close>

fun moves_loop ::
  "nat option \<Rightarrow> (string \<times> string) list \<Rightarrow> ((string \<times> string) \<times> string list) list
     \<Rightarrow> (string \<times> string) list
     \<Rightarrow> error + (string \<times> string) list \<times> ((string \<times> string) \<times> string list) list"
where
  "moves_loop ixdiv moveto move [] = Inr (moveto, move)"
| "moves_loop ixdiv moveto move ((src, dst) # rest) =
     (let sparts = parts src; dparts = parts dst
      in case ixdiv_loop ixdiv 0 (zip_longest (rev sparts) (rev dparts)) of
           None \<Rightarrow> Inl (UnboundLocalError ''ixdiv'')
         | Some ix \<Rightarrow>
             if ix = 0 then
               moves_loop (Some ix) (moveto @ [(str_path src, str_path dst)]) move rest
             else
               (let sdir = take (length sparts - ix) sparts;
                    ddir = take (length dparts - ix) dparts;
                    srcdir = (if sdir \<noteq> [] then os_path_join_list sdir else []);
                    dstdir = (if ddir \<noteq> [] then os_path_join_list ddir else [])
                in case drop (length sparts - ix) sparts of
                     [] \<Rightarrow> Inl (TypeError ''join() missing 1 required positional argument'')
                   | f # fs \<Rightarrow>
                       moves_loop (Some ix) moveto
                         (move_append (srcdir, dstdir) (os_path_join_list (f # fs)) move) rest))"

text \<open>The loop over \<^verbatim>\<open>move.copy().items()\<close>: a group of one file goes back to
  \<^verbatim>\<open>moveto\<close> and is deleted from \<^verbatim>\<open>move\<close>. The result is what is added to
  \<^verbatim>\<open>moveto\<close> and what stays in \<^verbatim>\<open>move\<close>.\<close>

fun collapse ::
  "((string \<times> string) \<times> string list) list
     \<Rightarrow> error + (string \<times> string) list \<times> ((string \<times> string) \<times> string list) list"
where
  "collapse [] = Inr ([], [])"
| "collapse (((srcdir, dstdir), files) # rest) =
     (if length files > 1 then
        (case collapse rest of
           Inl e \<Rightarrow> Inl e
         | Inr (moveto, move) \<Rightarrow> Inr (moveto, ((srcdir, dstdir), files) # move))
      else
        (case files of
           [] \<Rightarrow> Inl IndexError
         | file # _ \<Rightarrow>
             (case collapse rest of
                Inl e \<Rightarrow> Inl e
              | Inr (moveto, move) \<Rightarrow>
                  Inr ((os_path_join srcdir file, os_path_join dstdir file) # moveto, move))))"

definition moves_plan ::
  "(string \<times> string) list
     \<Rightarrow> error + (string \<times> string) list \<times> ((string \<times> string) \<times> string list) list"
where
  "moves_plan moves =
     (case moves_loop None [] [] moves of
        Inl e \<Rightarrow> Inl e
      | Inr (moveto, move) \<Rightarrow>
          (case collapse move of
             Inl e \<Rightarrow> Inl e
           | Inr (moveto', move') \<Rightarrow> Inr (moveto @ moveto', move')))"

text \<open>\<^verbatim>\<open>cmd0\<close> without its first element, which each call sets.\<close>

definition dbm_cmd0 :: "config \<Rightarrow> state \<Rightarrow> side \<Rightarrow> string list" where
  "dbm_cmd0 cfg s AB =
     [''-v'', ''--stats-one-line'', ''--log-format'', '''']
       @ [''--no-check-dest'', ''--ignore-times'', ''--no-traverse'']
       @ rclone_flags cfg @ add_args s @ rclone_flagsAB cfg AB"

text \<open>
  \<^verbatim>\<open>_moveto\<close> and the logging of its result. \<^verbatim>\<open>repr\<close> of Python is the parameter
  \<open>py_repr\<close>. The worker pool is run in the order of the list, and the first failed call
  ends the stage.
\<close>

definition moveto_one ::
  "(string \<Rightarrow> string \<Rightarrow> string) \<Rightarrow> (string \<Rightarrow> string) \<Rightarrow> config \<Rightarrow> agent \<Rightarrow> side \<Rightarrow> string list
     \<Rightarrow> string \<times> string \<Rightarrow> state \<Rightarrow> (error + unit) \<times> state"
where
  "moveto_one pathjoin py_repr cfg ag AB cmd0 file s =
     (let t = ''Move '' @ py_repr (fst file) @ '' --> '' @ py_repr (snd file);
          src = pathjoin (remote cfg AB) (fst file);
          dst = pathjoin (remote cfg AB) (snd file)
      in case call cfg ag ([''moveto''] @ cmd0 @ [src, dst]) False False True s of
           (Inl e, s1) \<Rightarrow> (Inl e, s1)
         | (Inr res, s1) \<Rightarrow> (Inr (), log_lines res (log_msg [Str t] s1)))"

fun run_moveto ::
  "(string \<Rightarrow> string \<Rightarrow> string) \<Rightarrow> (string \<Rightarrow> string) \<Rightarrow> config \<Rightarrow> agent \<Rightarrow> side \<Rightarrow> string list
     \<Rightarrow> (string \<times> string) list \<Rightarrow> state \<Rightarrow> (error + unit) \<times> state"
where
  "run_moveto pathjoin py_repr cfg ag AB cmd0 [] s = (Inr (), s)"
| "run_moveto pathjoin py_repr cfg ag AB cmd0 (file # rest) s =
     (case moveto_one pathjoin py_repr cfg ag AB cmd0 file s of
        (Inl e, s1) \<Rightarrow> (Inl e, s1)
      | (Inr _, s1) \<Rightarrow> run_moveto pathjoin py_repr cfg ag AB cmd0 rest s1)"

text \<open>One round of \<^verbatim>\<open>for ii, ((srcdir, dstdir), files) in enumerate(move.items())\<close>.\<close>

definition move_one ::
  "(string \<Rightarrow> string \<Rightarrow> string) \<Rightarrow> (string \<Rightarrow> string) \<Rightarrow> config \<Rightarrow> agent \<Rightarrow> side \<Rightarrow> string list
     \<Rightarrow> nat \<Rightarrow> (string \<times> string) \<times> string list \<Rightarrow> state \<Rightarrow> (error + unit) \<times> state"
where
  "move_one pathjoin py_repr cfg ag AB cmd0 ii g s =
     (let srcdir = fst (fst g); dstdir = snd (fst g); files = snd g;
          s1 = log_msg [Str (''Grouped Move '' @ py_repr srcdir @ '' --> '' @ py_repr dstdir)] s;
          s2 = fold (\<lambda>file. log_msg [Str (''  '' @ py_repr file)]) files s1;
          flistpath = tempdir cfg @ ''move_'' @ str_nat ii @ ''.txt'';
          s3 = write_file flistpath (join newline files) s2
      in case call cfg ag ([''move''] @ cmd0
                            @ [pathjoin (remote cfg AB) srcdir, pathjoin (remote cfg AB) dstdir,
                               ''--files-from'', flistpath]) True True True s3 of
           (Inl e, s4) \<Rightarrow> (Inl e, s4)
         | (Inr _, s4) \<Rightarrow> (Inr (), s4))"

fun run_moves ::
  "(string \<Rightarrow> string \<Rightarrow> string) \<Rightarrow> (string \<Rightarrow> string) \<Rightarrow> config \<Rightarrow> agent \<Rightarrow> side \<Rightarrow> string list
     \<Rightarrow> nat \<Rightarrow> ((string \<times> string) \<times> string list) list \<Rightarrow> state \<Rightarrow> (error + unit) \<times> state"
where
  "run_moves pathjoin py_repr cfg ag AB cmd0 ii [] s = (Inr (), s)"
| "run_moves pathjoin py_repr cfg ag AB cmd0 ii (g # rest) s =
     (case move_one pathjoin py_repr cfg ag AB cmd0 ii g s of
        (Inl e, s1) \<Rightarrow> (Inl e, s1)
      | (Inr _, s1) \<Rightarrow> run_moves pathjoin py_repr cfg ag AB cmd0 (Suc ii) rest s1)"

text \<open>The stage \<^verbatim>\<open>## Moves\<close> of \<^verbatim>\<open>delete_backup_move\<close>.\<close>

definition dbm_moves ::
  "(string \<Rightarrow> string \<Rightarrow> string) \<Rightarrow> (string \<Rightarrow> string) \<Rightarrow> config \<Rightarrow> agent \<Rightarrow> side
     \<Rightarrow> (string \<times> string) list \<Rightarrow> state \<Rightarrow> (error + unit) \<times> state"
where
  "dbm_moves pathjoin py_repr cfg ag AB moves s =
     (case moves_plan moves of
        Inl e \<Rightarrow> (Inl e, s)
      | Inr (moveto, move) \<Rightarrow>
          (case run_moveto pathjoin py_repr cfg ag AB (dbm_cmd0 cfg s AB) moveto s of
             (Inl e, s1) \<Rightarrow> (Inl e, s1)
           | (Inr _, s1) \<Rightarrow> run_moves pathjoin py_repr cfg ag AB (dbm_cmd0 cfg s AB) 0 move s1))"

text \<open>
  In the specification's words. The common suffix of two paths is counted in components;
  a pair with a common suffix is keyed by the two paths without that suffix, and its file
  is the suffix. \<open>first_seen\<close> lists keys in the order of their first use.
  \<open>moves_spec\<close> is the dispatch the specification describes: a \<^verbatim>\<open>moveto\<close> for every
  pair without a common suffix and for every group of one pair, and one grouped
  \<^verbatim>\<open>move\<close>, with the files of its pairs in order, for every group of two or more.
\<close>

definition common_suffix :: "string \<times> string \<Rightarrow> nat" where
  "common_suffix m =
     length (takeWhile (\<lambda>(a, b). a = b) (zip (rev (parts (fst m))) (rev (parts (snd m)))))"

definition strip_suffix :: "nat \<Rightarrow> string \<Rightarrow> string" where
  "strip_suffix k p = os_path_join_list (take (length (parts p) - k) (parts p))"

definition group_key :: "string \<times> string \<Rightarrow> string \<times> string" where
  "group_key m = (strip_suffix (common_suffix m) (fst m), strip_suffix (common_suffix m) (snd m))"

definition group_file :: "string \<times> string \<Rightarrow> string" where
  "group_file m =
     os_path_join_list (drop (length (parts (fst m)) - common_suffix m) (parts (fst m)))"

definition first_seen :: "'a list \<Rightarrow> 'a list" where
  "first_seen xs = rev (remdups (rev xs))"

definition groups_spec :: "(string \<times> string) list \<Rightarrow> ((string \<times> string) \<times> string list) list" where
  "groups_spec moves =
     (let grouped = filter (\<lambda>m. common_suffix m \<noteq> 0) moves
      in map (\<lambda>k. (k, map group_file (filter (\<lambda>m. group_key m = k) grouped)))
           (first_seen (map group_key grouped)))"

definition moves_spec ::
  "(string \<times> string) list
     \<Rightarrow> (string \<times> string) list \<times> ((string \<times> string) \<times> string list) list"
where
  "moves_spec moves =
     (map (\<lambda>m. (str_path (fst m), str_path (snd m))) (filter (\<lambda>m. common_suffix m = 0) moves)
        @ map (\<lambda>g. (os_path_join (fst (fst g)) (hd (snd g)), os_path_join (snd (fst g)) (hd (snd g))))
            (filter (\<lambda>g. length (snd g) = 1) (groups_spec moves)),
      filter (\<lambda>g. length (snd g) \<ge> 2) (groups_spec moves))"

text \<open>
  In the specification's words: directory \<open>a\<close> is a proper ancestor of directory \<open>d\<close>
  when \<open>d\<close> is a path below \<open>a\<close>, that is, \<open>a\<close> and a slash begin \<open>d\<close>.
\<close>

definition proper_ancestor :: "string \<Rightarrow> string \<Rightarrow> bool" where
  "proper_ancestor a d = prefix (a @ ''/'') d"

text \<open>A component of a path: a string that is not empty and has no slash.\<close>

definition good :: "string \<Rightarrow> bool" where
  "good x = (x \<noteq> [] \<and> CHR ''/'' \<notin> set x)"

section \<open>A sample configuration\<close>

text \<open>A configuration, a fresh driver state and agents with a fixed answer, for running the
  definitions on concrete inputs.\<close>

definition cfg0 :: config where
  "cfg0 = \<lparr>name = ''job'', now = ''20240101T000000'', tempdir = ''/tmp/x'',
          remoteA = ''A:'', remoteB = ''B:'', workdirA = ''A:.syncrclone'',
          workdirB = ''B:.syncrclone'', rclone_exe = [''rclone''], rclone_flags = [],
          rclone_flagsA = [], rclone_flagsB = [], filter_flags = [],
          compare = ''hash'', renamesA = None, renamesB = None,
          reuse_hashesA = True, reuse_hashesB = True, conflict_mode = None,
          always_get_mtime = False, reset_state = False, backup = True,
          backup_with_copy = None\<rparr>"

definition slash_join :: "string \<Rightarrow> string \<Rightarrow> string" where
  "slash_join a b = a @ ''/'' @ b"

definition no_prev :: "string \<Rightarrow> prev_file" where
  "no_prev p = FileNotFound"

definition quote :: "string \<Rightarrow> string" where
  "quote x = [CHR 0x27] @ x @ [CHR 0x27]"

definition exit_agent :: "int \<Rightarrow> agent" where
  "exit_agent rc h c = \<lparr>returncode = rc, stdout = [], stderr = []\<rparr>"




definition no_features :: "string \<Rightarrow> json option" where
  "no_features out = Some (JObj [])"

definition some_features :: "string \<Rightarrow> json option" where
  "some_features out =
     Some (JObj [(''Features'', JObj [(''Copy'', JBool True), (''Move'', JBool True)])])"











section \<open>Facts about \<^verbatim>\<open>call\<close>\<close>

lemma call_effect:
  assumes "call cfg ag cmd st ls de s = (r, s')"
  shows "calls s' = calls s @ [rclone_exe cfg @ cmd] \<and> written s' = written s \<and>
         add_args s' = add_args s \<and> probed s' = probed s \<and>
         ((\<exists>out. r = Inr out) \<longleftrightarrow> returncode (ag (calls s) (rclone_exe cfg @ cmd)) = 0)"
  using assms by (auto simp: call_def Let_def log_msg_def split: if_splits)

lemma call_capture_quiet:
  "call cfg ag cmd False False False s =
     (let c = rclone_exe cfg @ cmd; p = ag (calls s) c
      in (if returncode p \<noteq> 0 then Inl (CalledProcessError (returncode p) c (stdout p) (stderr p))
          else Inr (stdout p @ newline @ stderr p),
          s\<lparr>calls := calls s @ [c]\<rparr>))"
  by (simp add: call_def Let_def)

section \<open>Transfers\<close>

lemma transfer_diff_size_effect:
  assumes "transfer_src_dst cfg mode = Some (src, dst)"
    and "transfer_diff_size cfg ag mode diff_size s = (r, s')"
    and "c = rclone_exe cfg @ transfer_cmd cfg s @ [''--size-only''] @
             (if length diff_size \<le> 100 then [''--no-traverse''] else []) @
             [''--files-from'', tempdir cfg @ mode @ ''_transfer-diff_size'', src, dst]"
  shows "calls s' = calls s @ [c] \<and>
         written s' = written s
           @ [(tempdir cfg @ mode @ ''_transfer-diff_size'', join newline diff_size)] \<and>
         add_args s' = add_args s \<and>
         (r = Inr () \<longleftrightarrow> returncode (ag (calls s) c) = 0)"
proof -
  let ?c = "transfer_cmd cfg s @ [''--size-only''] @
             (if length diff_size \<le> 100 then [''--no-traverse''] else []) @
             [''--files-from'', tempdir cfg @ mode @ ''_transfer-diff_size'', src, dst]"
  let ?s1 = "write_file (tempdir cfg @ mode @ ''_transfer-diff_size'') (join newline diff_size) s"
  obtain r2 s2 where c2: "call cfg ag ?c True True True ?s1 = (r2, s2)"
    by (cases "call cfg ag ?c True True True ?s1") simp
  have eq: "transfer_diff_size cfg ag mode diff_size s =
      (case r2 of Inl e \<Rightarrow> (Inl e, s2) | Inr _ \<Rightarrow> (Inr (), s2))"
    using assms(1) c2
    by (cases "length diff_size \<le> 100") (simp_all add: transfer_diff_size_def Let_def)
  from call_effect [OF c2] eq assms(2,3) show ?thesis
    by (cases r2) (auto simp: write_file_def)
qed

lemma transfer_matched_size_effect:
  assumes "transfer_src_dst cfg mode = Some (src, dst)"
    and "compare cfg \<noteq> ''size''"
    and "transfer_matched_size cfg ag mode matched_size s = (r, s')"
    and "c = rclone_exe cfg @ transfer_cmd cfg s @
             (if compare cfg = ''hash'' then [''--checksum''] else []) @
             (if length matched_size \<le> 100 then [''--no-traverse''] else []) @
             [''--files-from'', tempdir cfg @ mode @ ''_transfer-matched_size'', src, dst]"
  shows "calls s' = calls s @ [c] \<and>
         written s' = written s
           @ [(tempdir cfg @ mode @ ''_transfer-matched_size'', join newline matched_size)] \<and>
         add_args s' = add_args s \<and>
         (r = Inr () \<longleftrightarrow> returncode (ag (calls s) c) = 0)"
proof -
  let ?c = "transfer_cmd cfg s @
             (if compare cfg = ''hash'' then [''--checksum''] else []) @
             (if length matched_size \<le> 100 then [''--no-traverse''] else []) @
             [''--files-from'', tempdir cfg @ mode @ ''_transfer-matched_size'', src, dst]"
  let ?s1 = "write_file (tempdir cfg @ mode @ ''_transfer-matched_size'')
               (join newline matched_size) s"
  obtain r2 s2 where c2: "call cfg ag ?c True True True ?s1 = (r2, s2)"
    by (cases "call cfg ag ?c True True True ?s1") simp
  have eq: "transfer_matched_size cfg ag mode matched_size s =
      (case r2 of Inl e \<Rightarrow> (Inl e, s2) | Inr _ \<Rightarrow> (Inr (), s2))"
    using assms(1,2) c2
    by (cases "length matched_size \<le> 100"; cases "compare cfg = ''hash''")
       (simp_all add: transfer_matched_size_def Let_def)
  from call_effect [OF c2] eq assms(3,4) show ?thesis
    by (cases r2) (auto simp: write_file_def)
qed

text \<open>
  Claim C2. For the modes \<^verbatim>\<open>A2B\<close> and \<^verbatim>\<open>B2A\<close>, and with \<^verbatim>\<open>compare\<close> other than
  \<^verbatim>\<open>size\<close> whenever \<^verbatim>\<open>matched_size\<close> is not empty (the case the callers never
  produce): a non-empty \<^verbatim>\<open>diff_size\<close> is sent first, in one
  \<^verbatim>\<open>copy ... --size-only [--no-traverse] --files-from FILE src dst\<close>, and a non-empty
  \<^verbatim>\<open>matched_size\<close> is sent next, in one
  \<^verbatim>\<open>copy ... [--checksum] [--no-traverse] --files-from FILE src dst\<close>, once the first
  call, if there was one, has exited with 0. \<^verbatim>\<open>--checksum\<close> is there exactly when
  \<^verbatim>\<open>compare\<close> is \<^verbatim>\<open>hash\<close>, \<^verbatim>\<open>--no-traverse\<close> exactly when the list has at most
  100 entries, and each file holds its list, one path a line. No other command is run and
  no other file is written.
\<close>

theorem transfer_commands:
  assumes "mode = ''A2B'' \<or> mode = ''B2A''"
    and "compare cfg = ''size'' \<longrightarrow> matched_size = []"
  shows
    "(let src = (if mode = ''A2B'' then remoteA cfg else remoteB cfg);
          dst = (if mode = ''A2B'' then remoteB cfg else remoteA cfg);
          copy = rclone_exe cfg @ [''copy'', ''-v'', ''--stats-one-line'', ''--log-format'', '''']
                   @ rclone_flags cfg @ add_args s;
          difffile = tempdir cfg @ mode @ ''_transfer-diff_size'';
          matchfile = tempdir cfg @ mode @ ''_transfer-matched_size'';
          cmddiff = copy @ [''--size-only'']
                      @ (if length diff_size \<le> 100 then [''--no-traverse''] else [])
                      @ [''--files-from'', difffile, src, dst];
          cmdmatch = copy @ (if compare cfg = ''hash'' then [''--checksum''] else [])
                      @ (if length matched_size \<le> 100 then [''--no-traverse''] else [])
                      @ [''--files-from'', matchfile, src, dst];
          diff_sent = (diff_size \<noteq> []);
          match_sent = (matched_size \<noteq> [] \<and>
                        (diff_size = [] \<or> returncode (ag (calls s) cmddiff) = 0));
          s' = snd (transfer cfg ag mode matched_size diff_size s)
      in calls s' = calls s @ (if diff_sent then [cmddiff] else [])
                            @ (if match_sent then [cmdmatch] else [])
       \<and> written s' = written s
            @ (if diff_sent then [(difffile, join newline diff_size)] else [])
            @ (if match_sent then [(matchfile, join newline matched_size)] else []))"
proof -
  define src where "src = (if mode = ''A2B'' then remoteA cfg else remoteB cfg)"
  define dst where "dst = (if mode = ''A2B'' then remoteB cfg else remoteA cfg)"
  have sd: "transfer_src_dst cfg mode = Some (src, dst)"
    using assms(1) by (auto simp: transfer_src_dst_def src_def dst_def)
  obtain r1 s1 where d: "transfer_diff_size cfg ag mode diff_size s = (r1, s1)"
    by (cases "transfer_diff_size cfg ag mode diff_size s") simp
  obtain r2 s2 where m: "transfer_matched_size cfg ag mode matched_size s1 = (r2, s2)"
    by (cases "transfer_matched_size cfg ag mode matched_size s1") simp
  obtain r3 s3 where m0: "transfer_matched_size cfg ag mode matched_size s = (r3, s3)"
    by (cases "transfer_matched_size cfg ag mode matched_size s") simp
  note de = transfer_diff_size_effect [OF sd d refl]
  have cmd1: "transfer_cmd cfg s1 = transfer_cmd cfg s"
    using de by (simp add: transfer_cmd_def)
  show ?thesis
  proof (cases "diff_size = []")
    case True
    show ?thesis
    proof (cases "matched_size = []")
      case True
      with \<open>diff_size = []\<close> show ?thesis by (simp add: transfer_def)
    next
      case False
      then have ns: "compare cfg \<noteq> ''size''" using assms(2) by auto
      note me = transfer_matched_size_effect [OF sd ns m0 refl]
      from True False me m0 show ?thesis
        by (simp add: transfer_def Let_def transfer_cmd_def src_def dst_def)
    qed
  next
    case False
    show ?thesis
    proof (cases "matched_size = []")
      case True
      from True False de d show ?thesis
        by (cases r1) (simp_all add: transfer_def Let_def transfer_cmd_def src_def dst_def)
    next
      case mf: False
      then have ns: "compare cfg \<noteq> ''size''" using assms(2) by auto
      note me = transfer_matched_size_effect [OF sd ns m refl]
      from mf False de d me m cmd1 show ?thesis
        by (cases r1) (simp_all add: transfer_def Let_def transfer_cmd_def src_def dst_def)
    qed
  qed
qed

theorem transfer_commands_witness:
  "calls (snd (transfer cfg0 (exit_agent 0) ''A2B'' [''m''] [''d1'', ''d2''] new_state)) =
     [[''rclone'', ''copy'', ''-v'', ''--stats-one-line'', ''--log-format'', '''',
       ''--size-only'', ''--no-traverse'', ''--files-from'', ''/tmp/xA2B_transfer-diff_size'',
       ''A:'', ''B:''],
      [''rclone'', ''copy'', ''-v'', ''--stats-one-line'', ''--log-format'', '''',
       ''--checksum'', ''--no-traverse'', ''--files-from'', ''/tmp/xA2B_transfer-matched_size'',
       ''A:'', ''B:'']]
   \<and> written (snd (transfer cfg0 (exit_agent 0) ''A2B'' [''m''] [''d1'', ''d2''] new_state)) =
     [(''/tmp/xA2B_transfer-diff_size'', ''d1'' @ newline @ ''d2''),
      (''/tmp/xA2B_transfer-matched_size'', ''m'')]"
  using transfer_commands [where mode = "''A2B''" and cfg = cfg0 and matched_size = "[''m'']"
      and diff_size = "[''d1'', ''d2'']" and s = new_state and ag = "exit_agent 0"]
  by (simp add: cfg0_def new_state_def exit_agent_def Let_def)

text \<open>
  Claim C10. Whatever the mode, \<^verbatim>\<open>transfer\<close> with both lists empty returns at once: the
  state is the one it was given, so no command has been run and no file written.
\<close>

theorem transfer_nothing:
  "transfer cfg ag mode [] [] s = (Inr (), s)"
  by (simp add: transfer_def)

section \<open>The prior listing\<close>

text \<open>
  Claim C3, as the code has it. Whenever the \<^verbatim>\<open>copyto\<close> call of the pull exits with a
  code other than 0, the pull returns the empty listing and logs one line: the notice
  \<^verbatim>\<open>No previous list on S. Reset state\<close> for the codes 3 and 4, and the warning
  \<^verbatim>\<open>WARNING: Unexpected rclone return. Resetting state in S\<close> for every other code. No
  exit code of this call makes the pull raise.
\<close>

theorem pull_prev_list_exit_codes:
  assumes "cmd = rclone_exe cfg @ rclone_flags cfg @ add_args s @ rclone_flagsAB cfg AB
                  @ [''--retries'', ''1'', ''copyto'',
                     pathjoin (workdir cfg AB) (side_str AB @ ''-'' @ name cfg @ ''_fl.json.xz''),
                     os_path_join (tempdir cfg) (side_str AB @ ''_prev'')]"
    and "returncode (ag (calls s) cmd) \<noteq> 0"
  shows "pull_prev_list pathjoin load cfg ag AB s =
           (Inr [],
            s\<lparr>calls := calls s @ [cmd],
              logged := logged s @
                [[Str (if returncode (ag (calls s) cmd) \<in> {3, 4}
                       then ''No previous list on '' @ side_str AB @ ''. Reset state''
                       else ''WARNING: Unexpected rclone return. Resetting state in ''
                              @ side_str AB)]]\<rparr>)"
  using assms by (simp add: pull_prev_list_def call_capture_quiet Let_def log_msg_def)

theorem pull_prev_list_exit_codes_witness:
  "pull_prev_list slash_join no_prev cfg0 (exit_agent 3) B new_state =
     (Inr [],
      new_state\<lparr>calls := [[''rclone'', ''--retries'', ''1'', ''copyto'',
                            ''B:.syncrclone/B-job_fl.json.xz'', ''/tmp/x/B_prev'']],
                logged := [[Str ''No previous list on B. Reset state'']]\<rparr>)"
  using pull_prev_list_exit_codes [of _ cfg0 new_state B slash_join "exit_agent 3" no_prev, OF refl]
  by (simp add: cfg0_def new_state_def exit_agent_def slash_join_def workdir_def side_str_def
        rclone_flagsAB_def os_path_join_def startswith_def)

text \<open>
  The claim as stated asks for the agent-call error on every non-zero code other than 3
  and 4. With exit code 1 the pull returns the empty listing and a warning instead.
\<close>

theorem pull_prev_list_exit_1_counterexample:
  "pull_prev_list slash_join no_prev cfg0 (exit_agent 1) A new_state =
     (Inr [],
      new_state\<lparr>calls := [[''rclone'', ''--retries'', ''1'', ''copyto'',
                            ''A:.syncrclone/A-job_fl.json.xz'', ''/tmp/x/A_prev'']],
                logged := [[Str ''WARNING: Unexpected rclone return. Resetting state in A'']]\<rparr>)"
  by (simp add: pull_prev_list_def call_capture_quiet Let_def log_msg_def
        cfg0_def new_state_def exit_agent_def slash_join_def workdir_def side_str_def
        rclone_flagsAB_def os_path_join_def startswith_def)

section \<open>Locks\<close>

text \<open>
  Claim C4. For a side \<open>AB\<close> the lock check runs one
  \<^verbatim>\<open>lsf workdir/LOCK/LOCK_name\<close> and its outcome is decided by the exit code alone:
  \<^verbatim>\<open>LockedRemoteError\<close> exactly when the call exits with 0, the value \<^verbatim>\<open>True\<close> when
  it exits with 3 or 4, and the \<^verbatim>\<open>CalledProcessError\<close> of the call, with its command,
  output, standard error and code, for every other code.
\<close>

theorem check_lock_outcome:
  "(let lockdest = pathjoin (workdir cfg AB) (''LOCK/LOCK_'' @ name cfg);
        cmd = rclone_exe cfg @ rclone_flags cfg @ add_args s @ rclone_flagsAB cfg AB
                @ [''--retries'', ''1'', ''lsf'', lockdest];
        p = ag (calls s) cmd
    in check_lock pathjoin cfg ag AB s =
         (if returncode p = 0 then
            Inl (LockedRemoteError (''Locked on '' @ side_str AB @ '', '' @ lockdest))
          else if returncode p = 3 \<or> returncode p = 4 then Inr True
          else Inl (CalledProcessError (returncode p) cmd (stdout p) (stderr p)),
          s\<lparr>calls := calls s @ [cmd]\<rparr>))"
  by (simp add: check_lock_def call_capture_quiet Let_def)

theorem check_lock_outcome_witness:
  "check_lock slash_join cfg0 (exit_agent 0) A new_state =
     (Inl (LockedRemoteError ''Locked on A, A:.syncrclone/LOCK/LOCK_job''),
      new_state\<lparr>calls := [[''rclone'', ''--retries'', ''1'', ''lsf'',
                            ''A:.syncrclone/LOCK/LOCK_job'']]\<rparr>)
   \<and> fst (check_lock slash_join cfg0 (exit_agent 4) B new_state) = Inr True
   \<and> fst (check_lock slash_join cfg0 (exit_agent 1) B new_state) =
       Inl (CalledProcessError 1 [''rclone'', ''--retries'', ''1'', ''lsf'',
                                  ''B:.syncrclone/LOCK/LOCK_job''] [] [])"
  using check_lock_outcome [of slash_join cfg0 A new_state "exit_agent 0"]
    check_lock_outcome [of slash_join cfg0 B new_state "exit_agent 4"]
    check_lock_outcome [of slash_join cfg0 B new_state "exit_agent 1"]
  by (simp add: cfg0_def new_state_def exit_agent_def slash_join_def workdir_def side_str_def
        rclone_flagsAB_def Let_def)


section \<open>The version gate\<close>




section \<open>The listing command\<close>

lemma pull_prev_list_calls:
  "\<exists>c. calls (snd (pull_prev_list pathjoin load cfg ag AB s)) = calls s @ [c]"
  by (simp add: pull_prev_list_def call_capture_quiet Let_def log_msg_def split: prev_file.splits)

lemma file_list_hashes_calls:
  "\<exists>cs. calls (snd (file_list_hashes loads cfg ag AB files prev_list s)) = calls s @ cs"
proof -
  obtain files' not_hashed where r: "reuse_loop prev_list files = (files', not_hashed)"
    by (cases "reuse_loop prev_list files") simp
  let ?tmp = "tempdir cfg @ ''/'' @ side_str AB @ ''_update_hash''"
  let ?s1 = "write_file ?tmp (join newline not_hashed) s"
  let ?cmd = "[''lsjson'', ''--hash'', ''--files-from'', ?tmp]
                        @ rclone_flags cfg @ add_args s @ rclone_flagsAB cfg AB
                        @ [''-R'', ''--no-mimetype'', ''--files-only''] @ [remote cfg AB]"
  obtain r2 s2 where c: "call cfg ag ?cmd False True True ?s1 = (r2, s2)"
    by (cases "call cfg ag ?cmd False True True ?s1") simp
  from call_effect [OF c] have "calls s2 = calls s @ [rclone_exe cfg @ ?cmd]"
    by (simp add: write_file_def)
  then show ?thesis
    using r c
    by (cases "not_hashed = []"; cases r2)
       (auto simp: file_list_hashes_def Let_def split: option.splits sum.splits)
qed

lemma file_list_first_call:
  "\<exists>cs. calls (snd (file_list loads RFC3339_to_unix pathjoin load cfg ag AB s)) =
     calls s @ [rclone_exe cfg @ file_list_cmd cfg s AB] @ cs"
proof -
  let ?cmd = "file_list_cmd cfg s AB"
  obtain r1 s1 where c: "call cfg ag ?cmd False True True s = (r1, s1)"
    by (cases "call cfg ag ?cmd False True True s") simp
  from call_effect [OF c] have c1: "calls s1 = calls s @ [rclone_exe cfg @ ?cmd]" by simp
  show ?thesis
  proof (cases r1)
    case (Inl e)
    with c c1 show ?thesis by (simp add: file_list_def Let_def)
  next
    case (Inr raw)
    show ?thesis
    proof (cases "loads raw")
      case None
      with Inr c c1 show ?thesis by (simp add: file_list_def Let_def)
    next
      case (Some items)
      show ?thesis
      proof (cases "to_entries RFC3339_to_unix items")
        case (Inl e)
        with Some Inr c c1 show ?thesis by (simp add: file_list_def Let_def)
      next
        case fs: (Inr files)
        obtain r2 s2 where p: "(if reset_state cfg then (Inr [], s1)
                              else pull_prev_list pathjoin load cfg ag AB s1) = (r2, s2)"
          by (cases "(if reset_state cfg then (Inr [], s1)
                              else pull_prev_list pathjoin load cfg ag AB s1)") simp
        have "\<exists>cs. calls s2 = calls s1 @ cs"
          using p pull_prev_list_calls [of pathjoin load cfg ag AB s1]
          by (cases "reset_state cfg") auto
        then obtain cs where c2: "calls s2 = calls s @ [rclone_exe cfg @ ?cmd] @ cs"
          using c1 by auto
        show ?thesis
        proof (cases r2)
          case (Inl e)
          with fs Some Inr c c2 p show ?thesis by (simp add: file_list_def Let_def)
        next
          case pr: (Inr prev_list)
          from file_list_hashes_calls [of loads cfg ag AB files prev_list s2]
          obtain cs' where "calls (snd (file_list_hashes loads cfg ag AB files prev_list s2)) =
              calls s2 @ cs'" by blast
          with pr fs Some Inr c c2 p show ?thesis by (simp add: file_list_def Let_def)
        qed
      qed
    qed
  qed
qed

text \<open>
  Claim C6. For a configuration that has passed \<^verbatim>\<open>Config.validate\<close>, the first listing
  command of side \<open>AB\<close> is \<^verbatim>\<open>lsjson\<close> with the two fixed filters, then \<^verbatim>\<open>--hash\<close>
  when hashes are computed and not reused, then \<^verbatim>\<open>--no-modtime\<close> exactly when
  \<^verbatim>\<open>always_get_mtime\<close> is false, \<^verbatim>\<open>compare\<close> is \<^verbatim>\<open>size\<close> or \<^verbatim>\<open>hash\<close>,
  \<^verbatim>\<open>renames[AB]\<close> is not \<^verbatim>\<open>mtime\<close> and \<^verbatim>\<open>conflict_mode\<close> is neither
  \<^verbatim>\<open>newer\<close> nor \<^verbatim>\<open>older\<close>, then the user's flags and the remote. It is the first
  command \<^verbatim>\<open>file_list\<close> runs. So unless the user's own flags hold \<^verbatim>\<open>--no-modtime\<close>,
  the flag is in the command if and only if that condition holds.
\<close>

theorem file_list_no_modtime:
  assumes "validated cfg"
  shows
    "(let no_modtime = (\<not> always_get_mtime cfg \<and> compare cfg \<in> {''size'', ''hash''} \<and>
                        renames cfg AB \<noteq> Some ''mtime'' \<and>
                        conflict_mode cfg \<notin> {Some ''newer'', Some ''older''});
          user = rclone_flags cfg @ add_args s @ rclone_flagsAB cfg AB @ filter_flags cfg
                   @ [''-R'', ''--no-mimetype'', ''--files-only'', remote cfg AB];
          cmd = [''lsjson'', ''--filter'', ''+ /.syncrclone/LOCK/*'', ''--filter'',
                 ''- /.syncrclone/**'']
                  @ (if (compare cfg = ''hash'' \<or> renames cfg AB = Some ''hash'') \<and>
                        \<not> reuse_hashes cfg AB then [''--hash''] else [])
                  @ (if no_modtime then [''--no-modtime''] else [])
                  @ user
      in file_list_cmd cfg s AB = cmd
       \<and> (\<exists>cs. calls (snd (file_list loads RFC3339_to_unix pathjoin load cfg ag AB s)) =
                  calls s @ [rclone_exe cfg @ cmd] @ cs)
       \<and> (''--no-modtime'' \<notin> set user \<longrightarrow> (''--no-modtime'' \<in> set cmd \<longleftrightarrow> no_modtime)))"
proof -
  have cmp: "compare cfg \<in> {''size'', ''hash''} \<longleftrightarrow> compare cfg \<noteq> ''mtime''"
    using assms by (auto simp: validated_def)
  have eq: "file_list_cmd cfg s AB =
      [''lsjson'', ''--filter'', ''+ /.syncrclone/LOCK/*'', ''--filter'', ''- /.syncrclone/**'']
        @ (if (compare cfg = ''hash'' \<or> renames cfg AB = Some ''hash'') \<and>
              \<not> reuse_hashes cfg AB then [''--hash''] else [])
        @ (if \<not> always_get_mtime cfg \<and> compare cfg \<in> {''size'', ''hash''} \<and>
                        renames cfg AB \<noteq> Some ''mtime'' \<and>
                        conflict_mode cfg \<notin> {Some ''newer'', Some ''older''}
           then [''--no-modtime''] else [])
        @ rclone_flags cfg @ add_args s @ rclone_flagsAB cfg AB @ filter_flags cfg
        @ [''-R'', ''--no-mimetype'', ''--files-only'', remote cfg AB]"
    unfolding cmp by (auto simp: file_list_cmd_def Let_def)
  show ?thesis
    unfolding Let_def eq [symmetric]
    using file_list_first_call [of loads RFC3339_to_unix pathjoin load cfg ag AB s]
    by (auto simp: eq)
qed

theorem file_list_no_modtime_witness:
  "file_list_cmd cfg0 new_state A =
     [''lsjson'', ''--filter'', ''+ /.syncrclone/LOCK/*'', ''--filter'', ''- /.syncrclone/**'',
      ''--no-modtime'', ''-R'', ''--no-mimetype'', ''--files-only'', ''A:'']
   \<and> file_list_cmd (cfg0\<lparr>conflict_mode := Some ''newer''\<rparr>) new_state A =
     [''lsjson'', ''--filter'', ''+ /.syncrclone/LOCK/*'', ''--filter'', ''- /.syncrclone/**'',
      ''-R'', ''--no-mimetype'', ''--files-only'', ''A:'']"
proof -
  have v: "validated cfg0" "validated (cfg0\<lparr>conflict_mode := Some ''newer''\<rparr>)"
    by (simp_all add: validated_def cfg0_def)
  from file_list_no_modtime [OF v(1), of A new_state]
    file_list_no_modtime [OF v(2), of A new_state]
  show ?thesis
    by (simp add: Let_def cfg0_def new_state_def renames_def reuse_hashes_def rclone_flagsAB_def
          remote_def)
qed

section \<open>The feature probe\<close>

lemma features_Some:
  "probed s AB = Some v \<Longrightarrow> features json_loads cfg ag AB s = (Inr v, s)"
  by (simp add: features_def memoize_def)

lemma features_None:
  assumes "probed s AB = None"
    and "features json_loads cfg ag AB s = (r, s')"
  shows "calls s' = calls s @ [rclone_exe cfg @ [''backend'', ''features'', remote cfg AB]
                                 @ rclone_flags cfg @ rclone_flagsAB cfg AB] \<and>
         ((\<exists>e. r = Inl e \<and> probed s' = probed s) \<or>
          (\<exists>v. r = Inr v \<and> probed s' = (probed s)(AB \<mapsto> v)))"
proof -
  let ?cmd = "[''backend'', ''features'', remote cfg AB] @ rclone_flags cfg @ rclone_flagsAB cfg AB"
  obtain r1 s1 where c: "call cfg ag ?cmd False True True s = (r1, s1)"
    by (cases "call cfg ag ?cmd False True True s") simp
  note e = call_effect [OF c]
  have "snd (features_body json_loads cfg ag AB s) = s1"
    using c by (simp add: features_body_def split: sum.splits option.splits)
  then obtain r2 where b: "features_body json_loads cfg ag AB s = (r2, s1)"
    by (cases "features_body json_loads cfg ag AB s") simp
  from assms b e show ?thesis
    by (cases r2) (auto simp: features_def memoize_def)
qed

lemma features_success:
  assumes "features json_loads cfg ag AB s = (Inr v, s')"
  shows "probed s' AB = Some v \<and> length (calls s') \<le> length (calls s) + 1"
proof (cases "probed s AB")
  case None
  from features_None [OF None assms] show ?thesis by auto
next
  case (Some w)
  from features_Some [OF Some, of json_loads cfg ag] assms Some show ?thesis by simp
qed

lemma probe_all_bound:
  "length (calls (snd (probe_all json_loads cfg ag sides s)))
     \<le> length (calls s) + card (set sides - dom (probed s))"
proof (induction sides arbitrary: s)
  case Nil
  then show ?case by simp
next
  case (Cons x xs)
  show ?case
  proof (cases "probed s x")
    case (Some v)
    then have "x \<in> dom (probed s)" by auto
    then have "set (x # xs) - dom (probed s) = set xs - dom (probed s)" by auto
    with Cons.IH [of s] features_Some [OF Some, of json_loads cfg ag] show ?thesis by simp
  next
    case None
    obtain r s1 where f: "features json_loads cfg ag x s = (r, s1)"
      by (cases "features json_loads cfg ag x s") simp
    note e = features_None [OF None f]
    have fin: "finite (set (x # xs) - dom (probed s))" by simp
    have xin: "x \<in> set (x # xs) - dom (probed s)" using None by auto
    show ?thesis
    proof (cases r)
      case (Inl err)
      have "1 \<le> card (set (x # xs) - dom (probed s))"
        using fin xin by (metis One_nat_def Suc_leI card_gt_0_iff empty_iff)
      with Inl f e show ?thesis by simp
    next
      case (Inr v)
      with e have p1: "probed s1 = (probed s)(x \<mapsto> v)" by auto
      have "set (x # xs) - dom (probed s) = insert x (set xs - dom (probed s1))"
        using None p1 by auto
      moreover have "x \<notin> set xs - dom (probed s1)" using p1 by auto
      ultimately have "card (set (x # xs) - dom (probed s)) = Suc (card (set xs - dom (probed s1)))"
        by simp
      with Cons.IH [of s1] Inr f e show ?thesis by simp
    qed
  qed
qed

text \<open>
  Claim C9. With the decorator as the specification describes it: a side whose features
  are in the cache is answered from the cache, with no command run and the state
  unchanged; a probe that returns leaves its value in the cache, has run at most one
  command, and is answered again without a command; and a caller that probes any list of
  sides runs at most as many commands as there are different sides in the list. The
  capability predicates fall back on their defaults whenever the key is absent from the
  features: \<^verbatim>\<open>False\<close> for \<^verbatim>\<open>Copy\<close> and \<^verbatim>\<open>Move\<close>, \<^verbatim>\<open>True\<close> for
  \<^verbatim>\<open>CanHaveEmptyDirectories\<close>; and a reply without the key \<^verbatim>\<open>Features\<close> gives the
  empty features.
\<close>

theorem feature_probe_memoized:
  "(probed s AB = Some v \<longrightarrow> features json_loads cfg ag AB s = (Inr v, s))
   \<and> (features json_loads cfg ag AB s = (Inr v, s') \<longrightarrow>
        length (calls s') \<le> length (calls s) + 1 \<and>
        features json_loads cfg ag AB s' = (Inr v, s'))
   \<and> length (calls (snd (probe_all json_loads cfg ag sides s)))
        \<le> length (calls s) + card (set sides)
   \<and> (features json_loads cfg ag AB s = (Inr (JObj kvs), s') \<longrightarrow>
        (map_of kvs ''Copy'' = None \<longrightarrow>
           copy_support json_loads cfg ag AB s = (Inr (JBool False), s')) \<and>
        (map_of kvs ''Move'' = None \<longrightarrow>
           move_support json_loads cfg ag AB s = (Inr (JBool False), s')) \<and>
        (map_of kvs ''CanHaveEmptyDirectories'' = None \<longrightarrow>
           empty_dir_support json_loads cfg ag AB s = (Inr (JBool True), s')))
   \<and> (probed s AB = None \<and>
      returncode (ag (calls s) (rclone_exe cfg @ [''backend'', ''features'', remote cfg AB]
                                  @ rclone_flags cfg @ rclone_flagsAB cfg AB)) = 0 \<and>
      json_loads (stdout (ag (calls s) (rclone_exe cfg @ [''backend'', ''features'', remote cfg AB]
                                  @ rclone_flags cfg @ rclone_flagsAB cfg AB))) = Some (JObj reply) \<and>
      map_of reply ''Features'' = None \<longrightarrow>
        fst (features json_loads cfg ag AB s) = Inr (JObj []))"
proof -
  have 1: "probed s AB = Some v \<longrightarrow> features json_loads cfg ag AB s = (Inr v, s)"
    by (simp add: features_Some)
  have 2: "features json_loads cfg ag AB s = (Inr v, s') \<longrightarrow>
        length (calls s') \<le> length (calls s) + 1 \<and>
        features json_loads cfg ag AB s' = (Inr v, s')"
    using features_success [of json_loads cfg ag AB s v s'] features_Some [of s' AB v json_loads cfg ag]
    by blast
  have "card (set sides - dom (probed s)) \<le> card (set sides)"
    by (simp add: card_mono)
  with probe_all_bound [of json_loads cfg ag sides s]
  have 3: "length (calls (snd (probe_all json_loads cfg ag sides s)))
        \<le> length (calls s) + card (set sides)" by linarith
  have 4: "features json_loads cfg ag AB s = (Inr (JObj kvs), s') \<longrightarrow>
        (map_of kvs ''Copy'' = None \<longrightarrow>
           copy_support json_loads cfg ag AB s = (Inr (JBool False), s')) \<and>
        (map_of kvs ''Move'' = None \<longrightarrow>
           move_support json_loads cfg ag AB s = (Inr (JBool False), s')) \<and>
        (map_of kvs ''CanHaveEmptyDirectories'' = None \<longrightarrow>
           empty_dir_support json_loads cfg ag AB s = (Inr (JBool True), s'))"
    by (simp add: copy_support_def move_support_def empty_dir_support_def feature_get_def
          dict_get_def)
  have 5: "probed s AB = None \<and>
      returncode (ag (calls s) (rclone_exe cfg @ [''backend'', ''features'', remote cfg AB]
                                  @ rclone_flags cfg @ rclone_flagsAB cfg AB)) = 0 \<and>
      json_loads (stdout (ag (calls s) (rclone_exe cfg @ [''backend'', ''features'', remote cfg AB]
                                  @ rclone_flags cfg @ rclone_flagsAB cfg AB))) = Some (JObj reply) \<and>
      map_of reply ''Features'' = None \<longrightarrow>
        fst (features json_loads cfg ag AB s) = Inr (JObj [])"
    by (simp add: features_def memoize_def features_body_def call_def Let_def dict_get_def)
  from 1 2 3 4 5 show ?thesis by blast
qed

theorem feature_probe_memoized_witness:
  "fst (copy_support no_features cfg0 (exit_agent 0) A new_state) = Inr (JBool False)
   \<and> fst (move_support no_features cfg0 (exit_agent 0) A new_state) = Inr (JBool False)
   \<and> fst (empty_dir_support no_features cfg0 (exit_agent 0) A new_state) = Inr (JBool True)
   \<and> fst (features no_features cfg0 (exit_agent 0) A new_state) = Inr (JObj [])
   \<and> length (calls (snd (probe_all no_features cfg0 (exit_agent 0) [A, B, A, B, A] new_state))) \<le> 2"
proof -
  obtain s' where f: "features no_features cfg0 (exit_agent 0) A new_state = (Inr (JObj []), s')"
    by (simp add: features_def memoize_def features_body_def call_def Let_def dict_get_def
          new_state_def no_features_def exit_agent_def)
  note t = feature_probe_memoized [where json_loads = no_features and cfg = cfg0
      and ag = "exit_agent 0" and AB = A and s = new_state and s' = s' and kvs = "[]"
      and v = "JObj []" and sides = "[A, B, A, B, A]" and reply = "[]"]
  have "set [A, B, A, B, A] = {A, B}" by auto
  then have c: "card (set [A, B, A, B, A]) = 2" by simp
  from t f c show ?thesis by (simp add: new_state_def)
qed

section \<open>Empty directories\<close>

lemma startswith_prefix: "startswith s p \<longleftrightarrow> prefix p s"
  by (metis startswith_def append_eq_conv_conj prefix_def take_is_prefix)

lemma proper_ancestor_less: "proper_ancestor a d \<Longrightarrow> a < d"
  by (auto simp: proper_ancestor_def prefix_def list_less_def intro!: lexord_append_rightI)

lemma proper_ancestor_trans:
  "proper_ancestor a b \<Longrightarrow> proper_ancestor b c \<Longrightarrow> proper_ancestor a c"
  by (auto simp: proper_ancestor_def prefix_def)

text \<open>
  On paths written as components joined by slashes, the first not empty, a proper ancestor
  is a path whose components are a proper prefix of the other's.
\<close>

lemma join_concat: "join sep (x # xs) = x @ concat (map (\<lambda>y. sep @ y) xs)"
  by (induction xs arbitrary: x) auto

lemma first_slash:
  assumes "CHR ''/'' \<notin> set p" and "CHR ''/'' \<notin> set q"
    and "T = [] \<or> hd T = CHR ''/''"
  shows "prefix (p @ CHR ''/'' # u) (q @ T) \<longleftrightarrow> p = q \<and> T \<noteq> [] \<and> prefix u (tl T)"
  using assms
proof (induction p arbitrary: q)
  case Nil
  show ?case
  proof (cases q)
    case Nil
    with Nil.prems show ?thesis by (cases T) auto
  next
    case (Cons c q')
    with Nil.prems show ?thesis by auto
  qed
next
  case (Cons a p')
  show ?case
  proof (cases q)
    case Nil
    with Cons.prems show ?thesis by (cases T) auto
  next
    case c: (Cons c q')
    with Cons.prems have "CHR ''/'' \<notin> set p'" "CHR ''/'' \<notin> set q'" by auto
    from Cons.IH [OF this Cons.prems(3)] c show ?thesis by auto
  qed
qed

lemma proper_ancestor_components:
  assumes "ps \<noteq> []"
    and "\<forall>x\<in>set ps. CHR ''/'' \<notin> set x"
    and "\<forall>x\<in>set qs. CHR ''/'' \<notin> set x"
  shows "proper_ancestor (join ''/'' ps) (join ''/'' qs) \<longleftrightarrow> strict_prefix ps qs"
  using assms
proof (induction ps arbitrary: qs)
  case Nil
  then show ?case by simp
next
  case (Cons p ps')
  show ?case
  proof (cases qs)
    case Nil
    then show ?thesis by (simp add: proper_ancestor_def join_concat)
  next
    case q: (Cons q qs')
    let ?T = "concat (map (\<lambda>y. ''/'' @ y) qs')"
    have T: "?T = [] \<or> hd ?T = CHR ''/''" by (cases qs') auto
    have Tne: "?T \<noteq> [] \<longleftrightarrow> qs' \<noteq> []" by (cases qs') auto
    have tl: "qs' \<noteq> [] \<Longrightarrow> tl ?T = join ''/'' qs'"
      by (cases qs') (auto simp: join_concat)
    have sp: "CHR ''/'' \<notin> set p" "CHR ''/'' \<notin> set q" using Cons.prems q by auto
    show ?thesis
    proof (cases ps')
      case Nil
      have "proper_ancestor (join ''/'' [p]) (join ''/'' (q # qs')) \<longleftrightarrow>
              prefix (p @ CHR ''/'' # []) (q @ ?T)"
        by (simp add: proper_ancestor_def join_concat)
      also have "\<dots> \<longleftrightarrow> p = q \<and> ?T \<noteq> [] \<and> prefix [] (tl ?T)"
        by (rule first_slash [OF sp T])
      also have "\<dots> \<longleftrightarrow> strict_prefix [p] (q # qs')"
        using Tne by (auto simp: strict_prefix_def)
      finally show ?thesis using Nil q by simp
    next
      case c: (Cons p2 ps'')
      let ?u = "join ''/'' ps' @ ''/''"
      have "proper_ancestor (join ''/'' (p # ps')) (join ''/'' (q # qs')) \<longleftrightarrow>
              prefix (p @ CHR ''/'' # ?u) (q @ ?T)"
        unfolding c by (simp add: proper_ancestor_def join_concat)
      also have "\<dots> \<longleftrightarrow> p = q \<and> ?T \<noteq> [] \<and> prefix ?u (tl ?T)"
        by (rule first_slash [OF sp T])
      also have "\<dots> \<longleftrightarrow> p = q \<and> qs' \<noteq> [] \<and> proper_ancestor (join ''/'' ps') (join ''/'' qs')"
        using Tne tl by (auto simp: proper_ancestor_def)
      also have "\<dots> \<longleftrightarrow> p = q \<and> qs' \<noteq> [] \<and> strict_prefix ps' qs'"
        using Cons.IH [of qs'] Cons.prems q c by auto
      also have "\<dots> \<longleftrightarrow> strict_prefix (p # ps') (q # qs')"
        by (auto simp: strict_prefix_def)
      finally show ?thesis using q by simp
    qed
  qed
qed

lemma list_ex_ancestor:
  "list_ex (\<lambda>rmdir. startswith d (rmdir @ ''/'')) rm \<longleftrightarrow> (\<exists>r\<in>set rm. proper_ancestor r d)"
  by (simp add: list_ex_iff startswith_prefix proper_ancestor_def)

lemma rmdirs_loop_filter:
  assumes "sorted (pre @ xs)"
    and "set rm \<subseteq> set pre"
    and "\<forall>d\<in>set pre. d \<in> set rm \<or> (\<exists>r\<in>set rm. proper_ancestor r d)"
  shows "rmdirs_loop rm xs =
           rm @ filter (\<lambda>d. \<not> (\<exists>a\<in>set (pre @ xs). proper_ancestor a d)) xs
         \<and> (\<forall>d\<in>set (pre @ xs). d \<in> set (rmdirs_loop rm xs) \<or>
               (\<exists>r\<in>set (rmdirs_loop rm xs). proper_ancestor r d))"
  using assms
proof (induction xs arbitrary: rm pre)
  case Nil
  then show ?case by simp
next
  case (Cons d xs)
  define U where "U = set (pre @ d # xs)"
  define P where "P = (\<lambda>e. \<not> (\<exists>a\<in>U. proper_ancestor a e))"
  have U: "set ((pre @ [d]) @ xs) = U" by (simp add: U_def)
  have srt: "sorted ((pre @ [d]) @ xs)" using Cons.prems(1) by simp
  show ?case
  proof (cases "\<exists>r\<in>set rm. proper_ancestor r d")
    case True
    then have skip: "rmdirs_loop rm (d # xs) = rmdirs_loop rm xs"
      by (simp add: list_ex_ancestor)
    have sub: "set rm \<subseteq> set (pre @ [d])" using Cons.prems(2) by auto
    have cov: "\<forall>e\<in>set (pre @ [d]). e \<in> set rm \<or> (\<exists>r\<in>set rm. proper_ancestor r e)"
      using Cons.prems(3) True by auto
    from True Cons.prems(2) have "\<exists>a\<in>U. proper_ancestor a d" by (auto simp: U_def)
    then have nP: "\<not> P d" by (simp add: P_def)
    from Cons.IH [OF srt sub cov]
    have ih: "rmdirs_loop rm xs = rm @ filter P xs"
        "\<forall>e\<in>U. e \<in> set (rmdirs_loop rm xs) \<or> (\<exists>r\<in>set (rmdirs_loop rm xs). proper_ancestor r e)"
      unfolding U P_def by blast+
    have "rmdirs_loop rm (d # xs) = rm @ filter P (d # xs)"
      using ih(1) skip nP by simp
    moreover have "\<forall>e\<in>U. e \<in> set (rmdirs_loop rm (d # xs)) \<or>
        (\<exists>r\<in>set (rmdirs_loop rm (d # xs)). proper_ancestor r e)"
      using ih(2) skip by simp
    ultimately show ?thesis unfolding U_def [symmetric] P_def by blast
  next
    case False
    then have keep: "rmdirs_loop rm (d # xs) = rmdirs_loop (rm @ [d]) xs"
      by (simp add: list_ex_ancestor)
    have sub: "set (rm @ [d]) \<subseteq> set (pre @ [d])" using Cons.prems(2) by auto
    have cov: "\<forall>e\<in>set (pre @ [d]). e \<in> set (rm @ [d]) \<or>
                 (\<exists>r\<in>set (rm @ [d]). proper_ancestor r e)"
      using Cons.prems(3) by auto
    have none: "P d"
      unfolding P_def
    proof
      assume "\<exists>a\<in>U. proper_ancestor a d"
      then obtain a where a: "a \<in> set (pre @ d # xs)" "proper_ancestor a d"
        unfolding U_def by blast
      from a(2) have lt: "a < d" by (rule proper_ancestor_less)
      from a(1) consider "a \<in> set pre" | "a = d" | "a \<in> set xs" by auto
      then show False
      proof cases
        case 1
        with Cons.prems(3) have "a \<in> set rm \<or> (\<exists>r\<in>set rm. proper_ancestor r a)" by blast
        with a(2) False show False by (blast intro: proper_ancestor_trans)
      next
        case 2
        with lt show False by simp
      next
        case 3
        with Cons.prems(1) have "d \<le> a" by (auto simp: sorted_append)
        with lt show False by simp
      qed
    qed
    from Cons.IH [OF srt sub cov]
    have ih: "rmdirs_loop (rm @ [d]) xs = (rm @ [d]) @ filter P xs"
        "\<forall>e\<in>U. e \<in> set (rmdirs_loop (rm @ [d]) xs) \<or>
            (\<exists>r\<in>set (rmdirs_loop (rm @ [d]) xs). proper_ancestor r e)"
      unfolding U P_def by blast+
    have "rmdirs_loop rm (d # xs) = rm @ filter P (d # xs)"
      using ih(1) keep none by simp
    moreover have "\<forall>e\<in>U. e \<in> set (rmdirs_loop rm (d # xs)) \<or>
        (\<exists>r\<in>set (rmdirs_loop rm (d # xs)). proper_ancestor r e)"
      using ih(2) keep by simp
    ultimately show ?thesis unfolding U_def [symmetric] P_def by blast
  qed
qed

lemma rmdirs_roots:
  "rmdirs_loop [] (sort dirlist) =
     filter (\<lambda>d. \<not> (\<exists>a\<in>set dirlist. proper_ancestor a d)) (sort dirlist)"
  "\<forall>d\<in>set dirlist. d \<in> set (rmdirs_loop [] (sort dirlist)) \<or>
       (\<exists>r\<in>set (rmdirs_loop [] (sort dirlist)). proper_ancestor r d)"
proof -
  have p1: "sorted ([] @ sort dirlist)" by simp
  have p2: "set ([]::string list) \<subseteq> set []" by simp
  have p3: "\<forall>d\<in>set ([]::string list). d \<in> set ([]::string list) \<or>
              (\<exists>r\<in>set ([]::string list). proper_ancestor r d)" by simp
  note c = rmdirs_loop_filter [OF p1 p2 p3]
  have s: "set ([] @ sort dirlist) = set dirlist" by simp
  from c show "rmdirs_loop [] (sort dirlist) =
     filter (\<lambda>d. \<not> (\<exists>a\<in>set dirlist. proper_ancestor a d)) (sort dirlist)"
    unfolding s by simp
  from c show "\<forall>d\<in>set dirlist. d \<in> set (rmdirs_loop [] (sort dirlist)) \<or>
       (\<exists>r\<in>set (rmdirs_loop [] (sort dirlist)). proper_ancestor r d)"
    unfolding s by blast
qed

lemma rmdir_one_calls:
  "calls (rmdir_one pathjoin cfg ag AB cmd d s) =
     calls s @ [rclone_exe cfg @ cmd @ [pathjoin (remote cfg AB) d]]"
proof -
  obtain r s1 where c: "call cfg ag (cmd @ [pathjoin (remote cfg AB) d]) False False True s = (r, s1)"
    by (cases "call cfg ag (cmd @ [pathjoin (remote cfg AB) d]) False False True s") simp
  from call_effect [OF c] c show ?thesis
    by (simp add: rmdir_one_def log_lines_def log_msg_def)
qed

lemma fold_rmdir_one_calls:
  "calls (fold (rmdir_one pathjoin cfg ag AB cmd) roots s) =
     calls s @ map (\<lambda>d. rclone_exe cfg @ cmd @ [pathjoin (remote cfg AB) d]) roots"
  by (induction roots arbitrary: s) (simp_all add: rmdir_one_calls)

text \<open>
  Claim C8. For every directory list, \<^verbatim>\<open>rmdirs\<close> returns, and the commands it runs are
  one \<^verbatim>\<open>rmdirs\<close> call for each directory of the sorted list that has no proper
  ancestor in the list, in sorted order, each with the fixed flags and
  \<^verbatim>\<open>--retries 1\<close>, whatever the calls exit with. The directories called are exactly
  the directories of the list without a proper ancestor in the list, and every directory
  of the list that is not called lies below one that is. (A directory that is twice in the
  list is twice in the sorted list; the empty string is an ancestor of no relative path.)
\<close>

theorem rmdirs_roots_only:
  "(let roots = filter (\<lambda>d. \<not> (\<exists>a\<in>set dirlist. proper_ancestor a d)) (sort dirlist)
    in fst (rmdirs pathjoin cfg ag AB dirlist s) = Inr ()
     \<and> calls (snd (rmdirs pathjoin cfg ag AB dirlist s)) =
         calls s @ map (\<lambda>d. rclone_exe cfg @ rclone_flags cfg @ add_args s @ rclone_flagsAB cfg AB
                              @ [''rmdirs'', ''-v'', ''--stats-one-line'', ''--log-format'', '''',
                                 ''--retries'', ''1'', pathjoin (remote cfg AB) d]) roots
     \<and> set roots = {d \<in> set dirlist. \<not> (\<exists>a\<in>set dirlist. proper_ancestor a d)}
     \<and> (\<forall>d\<in>set dirlist. d \<notin> set roots \<longrightarrow> (\<exists>r\<in>set roots. proper_ancestor r d)))"
proof -
  define roots where
    "roots = filter (\<lambda>d. \<not> (\<exists>a\<in>set dirlist. proper_ancestor a d)) (sort dirlist)"
  have r: "rmdirs_loop [] (sort dirlist) = roots"
    by (simp add: roots_def rmdirs_roots(1))
  have 1: "fst (rmdirs pathjoin cfg ag AB dirlist s) = Inr ()"
    by (simp add: rmdirs_def)
  have 2: "calls (snd (rmdirs pathjoin cfg ag AB dirlist s)) =
         calls s @ map (\<lambda>d. rclone_exe cfg @ rclone_flags cfg @ add_args s @ rclone_flagsAB cfg AB
                              @ [''rmdirs'', ''-v'', ''--stats-one-line'', ''--log-format'', '''',
                                 ''--retries'', ''1'', pathjoin (remote cfg AB) d]) roots"
    by (simp add: rmdirs_def fold_rmdir_one_calls r rmdirs_cmd_def)
  have 3: "set roots = {d \<in> set dirlist. \<not> (\<exists>a\<in>set dirlist. proper_ancestor a d)}"
    by (auto simp: roots_def)
  have 4: "\<forall>d\<in>set dirlist. d \<notin> set roots \<longrightarrow> (\<exists>r\<in>set roots. proper_ancestor r d)"
    using rmdirs_roots(2) [of dirlist] unfolding r by blast
  from 1 2 3 4 show ?thesis
    unfolding Let_def roots_def [symmetric] by blast
qed

theorem rmdirs_roots_only_witness:
  "calls (snd (rmdirs slash_join cfg0 (exit_agent 1) A
                 [''a/b'', ''a'', ''b/c'', ''ab'', ''b/c/d'', ''a/b/c''] new_state)) =
     [[''rclone'', ''rmdirs'', ''-v'', ''--stats-one-line'', ''--log-format'', '''',
       ''--retries'', ''1'', ''A:/a''],
      [''rclone'', ''rmdirs'', ''-v'', ''--stats-one-line'', ''--log-format'', '''',
       ''--retries'', ''1'', ''A:/ab''],
      [''rclone'', ''rmdirs'', ''-v'', ''--stats-one-line'', ''--log-format'', '''',
       ''--retries'', ''1'', ''A:/b/c'']]"
proof -
  have srt: "sort [''a/b'', ''a'', ''b/c'', ''ab'', ''b/c/d'', ''a/b/c''] =
               [''a'', ''a/b'', ''a/b/c'', ''ab'', ''b/c'', ''b/c/d'']"
    by code_simp
  from rmdirs_roots_only [of "[''a/b'', ''a'', ''b/c'', ''ab'', ''b/c/d'', ''a/b/c'']"
      slash_join cfg0 "exit_agent 1" A new_state]
  show ?thesis
    unfolding Let_def srt
    by (simp add: proper_ancestor_def cfg0_def new_state_def slash_join_def rclone_flagsAB_def
          remote_def)
qed

section \<open>Reusing hashes\<close>





lemma set_Hashes_None:
  "p \<notin> Path ` set files \<Longrightarrow> DictTable_set_Hashes p h files = None"
  by (induction files) auto

lemma set_Hashes_paths:
  "DictTable_set_Hashes p h files = Some files' \<Longrightarrow> map Path files' = map Path files"
  by (induction files arbitrary: files') (auto split: if_splits)




lemma merge_hashes_error:
  assumes "\<exists>u\<in>set updated. item_Hashes u \<noteq> None \<and> item_Path u \<notin> Path ` set files"
  shows "\<exists>e. merge_hashes updated files = Inl e"
  using assms
proof (induction updated arbitrary: files)
  case Nil
  then show ?case by simp
next
  case (Cons u us)
  show ?case
  proof (cases "item_Hashes u")
    case None
    with Cons show ?thesis by auto
  next
    case (Some h)
    show ?thesis
    proof (cases "DictTable_set_Hashes (item_Path u) h files")
      case None
      with Some show ?thesis by simp
    next
      case (Some files')
      with \<open>item_Hashes u = Some h\<close> have inp: "item_Path u \<in> Path ` set files"
        using set_Hashes_None [of "item_Path u" files h] by auto
      have "map Path files' = map Path files"
        by (rule set_Hashes_paths [OF Some])
      then have "Path ` set files' = Path ` set files"
        by (metis list.set_map)
      with Cons.prems inp
      have "\<exists>v\<in>set us. item_Hashes v \<noteq> None \<and> item_Path v \<notin> Path ` set files'" by auto
      from Cons.IH [OF this] Some \<open>item_Hashes u = Some h\<close> show ?thesis by simp
    qed
  qed
qed










section \<open>Renames\<close>

lemma ixdiv_loop_mismatch:
  "xs \<noteq> ys \<Longrightarrow>
     ixdiv_loop ixdiv i (zip_longest xs ys) =
       Some (i + length (takeWhile (\<lambda>(a, b). a = b) (zip xs ys)))"
proof (induction xs ys arbitrary: ixdiv i rule: zip_longest.induct)
  case 1
  then show ?case by simp
next
  case (2 x xs)
  then show ?case by simp
next
  case (3 y ys)
  then show ?case by simp
next
  case (4 x xs y ys)
  show ?case
  proof (cases "x = y")
    case True
    with 4 have "xs \<noteq> ys" by simp
    from "4.IH" [OF this, of "Some i" "Suc i"] True show ?thesis by simp
  next
    case False
    then show ?thesis by simp
  qed
qed

lemma takeWhile_zip_le:
  "length (takeWhile P (zip xs ys)) \<le> length xs"
  by (metis length_takeWhile_le length_zip min.cobounded1 order_trans)

lemma common_suffix_le: "common_suffix m \<le> length (parts (fst m))"
  unfolding common_suffix_def using takeWhile_zip_le [of _ "rev (parts (fst m))"] by simp

lemma ixdiv_common_suffix:
  assumes "parts src \<noteq> parts dst"
  shows "ixdiv_loop ixdiv 0 (zip_longest (rev (parts src)) (rev (parts dst))) =
           Some (common_suffix (src, dst))"
proof -
  from assms have "rev (parts src) \<noteq> rev (parts dst)" by simp
  from ixdiv_loop_mismatch [OF this, of ixdiv 0] show ?thesis
    by (simp add: common_suffix_def)
qed

lemma moves_loop_spec:
  assumes "\<forall>m\<in>set moves. parts (fst m) \<noteq> parts (snd m)"
  shows "moves_loop ixdiv moveto move moves =
           Inr (moveto @ map (\<lambda>m. (str_path (fst m), str_path (snd m)))
                            (filter (\<lambda>m. common_suffix m = 0) moves),
                foldl (\<lambda>mv m. move_append (group_key m) (group_file m) mv) move
                      (filter (\<lambda>m. common_suffix m \<noteq> 0) moves))"
  using assms
proof (induction moves arbitrary: ixdiv moveto move)
  case Nil
  then show ?case by simp
next
  case (Cons m rest)
  obtain src dst where m: "m = (src, dst)" by (cases m)
  from Cons.prems m have ne: "parts src \<noteq> parts dst" by simp
  note ix = ixdiv_common_suffix [OF ne, of ixdiv]
  from Cons.prems have rest: "\<forall>m\<in>set rest. parts (fst m) \<noteq> parts (snd m)" by simp
  show ?case
  proof (cases "common_suffix (src, dst) = 0")
    case True
    with ix Cons.IH [OF rest] m show ?thesis by simp
  next
    case False
    let ?k = "common_suffix (src, dst)"
    have le: "?k \<le> length (parts src)" using common_suffix_le [of "(src, dst)"] by simp
    have "length (drop (length (parts src) - ?k) (parts src)) = ?k" using le by simp
    with False have "drop (length (parts src) - ?k) (parts src) \<noteq> []" by auto
    then obtain f fs where d: "drop (length (parts src) - ?k) (parts src) = f # fs"
      by (cases "drop (length (parts src) - ?k) (parts src)") auto
    have key: "group_key (src, dst) =
        (if take (length (parts src) - ?k) (parts src) \<noteq> []
         then os_path_join_list (take (length (parts src) - ?k) (parts src)) else [],
         if take (length (parts dst) - ?k) (parts dst) \<noteq> []
         then os_path_join_list (take (length (parts dst) - ?k) (parts dst)) else [])"
      by (simp add: group_key_def strip_suffix_def)
    have fl: "group_file (src, dst) = os_path_join_list (f # fs)"
      by (simp add: group_file_def d)
    have step: "moves_loop ixdiv moveto move ((src, dst) # rest) =
        moves_loop (Some ?k) moveto
          (move_append (group_key (src, dst)) (group_file (src, dst)) move) rest"
      using False ix d unfolding key fl by (simp add: Let_def)
    show ?thesis
      unfolding m step using False Cons.IH [OF rest] by simp
  qed
qed


lemma first_seen_snoc:
  "first_seen (xs @ [x]) = (if x \<in> set xs then first_seen xs else first_seen xs @ [x])"
  by (simp add: first_seen_def)

lemma set_first_seen [simp]: "set (first_seen xs) = set xs"
  by (simp add: first_seen_def)

lemma distinct_first_seen [simp]: "distinct (first_seen xs)"
  by (simp add: first_seen_def)

lemma move_append_map_in:
  "distinct ks \<Longrightarrow> k \<in> set ks \<Longrightarrow>
     move_append k v (map (\<lambda>kk. (kk, g kk)) ks) =
       map (\<lambda>kk. (kk, if kk = k then g kk @ [v] else g kk)) ks"
proof (induction ks)
  case Nil
  then show ?case by simp
next
  case (Cons a ks)
  show ?case
  proof (cases "a = k")
    case True
    with Cons.prems have "k \<notin> set ks" by simp
    then have "map (\<lambda>kk. (kk, if kk = k then g kk @ [v] else g kk)) ks = map (\<lambda>kk. (kk, g kk)) ks"
      by (induction ks) auto
    with True show ?thesis by simp
  next
    case False
    with Cons show ?thesis by simp
  qed
qed

lemma move_append_map_out:
  "k \<notin> set ks \<Longrightarrow>
     move_append k v (map (\<lambda>kk. (kk, g kk)) ks) = map (\<lambda>kk. (kk, g kk)) ks @ [(k, [v])]"
  by (induction ks) auto

lemma foldl_move_append:
  "foldl (\<lambda>mv m. move_append (key m) (val m) mv) [] ms =
     map (\<lambda>k. (k, map val (filter (\<lambda>m. key m = k) ms))) (first_seen (map key ms))"
proof (induction ms rule: rev_induct)
  case Nil
  then show ?case by (simp add: first_seen_def)
next
  case (snoc m ms)
  let ?g = "\<lambda>k. map val (filter (\<lambda>m. key m = k) ms)"
  have step: "foldl (\<lambda>mv m. move_append (key m) (val m) mv) [] (ms @ [m]) =
      move_append (key m) (val m) (map (\<lambda>k. (k, ?g k)) (first_seen (map key ms)))"
    using snoc.IH by simp
  show ?case
  proof (cases "key m \<in> set (map key ms)")
    case True
    then have fs: "first_seen (map key (ms @ [m])) = first_seen (map key ms)"
      using first_seen_snoc [of "map key ms" "key m"] by simp
    have "move_append (key m) (val m) (map (\<lambda>k. (k, ?g k)) (first_seen (map key ms))) =
        map (\<lambda>kk. (kk, if kk = key m then ?g kk @ [val m] else ?g kk)) (first_seen (map key ms))"
      by (rule move_append_map_in) (use True in simp_all)
    also have "\<dots> = map (\<lambda>k. (k, map val (filter (\<lambda>m. key m = k) (ms @ [m]))))
                       (first_seen (map key ms))"
      by (rule map_cong) auto
    finally show ?thesis unfolding step fs .
  next
    case False
    then have fs: "first_seen (map key (ms @ [m])) = first_seen (map key ms) @ [key m]"
      using first_seen_snoc [of "map key ms" "key m"] by simp
    have notin: "key m \<notin> set (first_seen (map key ms))" using False by simp
    have "move_append (key m) (val m) (map (\<lambda>k. (k, ?g k)) (first_seen (map key ms))) =
        map (\<lambda>k. (k, ?g k)) (first_seen (map key ms)) @ [(key m, [val m])]"
      by (rule move_append_map_out [OF notin])
    also have "\<dots> = map (\<lambda>k. (k, map val (filter (\<lambda>m. key m = k) (ms @ [m]))))
                       (first_seen (map key ms) @ [key m])"
    proof -
      have a: "map (\<lambda>k. (k, ?g k)) (first_seen (map key ms)) =
               map (\<lambda>k. (k, map val (filter (\<lambda>m. key m = k) (ms @ [m])))) (first_seen (map key ms))"
        by (rule map_cong) (use False in auto)
      have "\<forall>x\<in>set ms. key x \<noteq> key m"
        using False by (metis imageI list.set_map)
      then have b: "filter (\<lambda>x. key x = key m) ms = []"
        by (simp add: filter_empty_conv)
      show ?thesis unfolding a by (simp add: b)
    qed
    finally show ?thesis unfolding step fs .
  qed
qed

lemma groups_spec_nonempty: "\<forall>g\<in>set (groups_spec moves). snd g \<noteq> []"
proof
  fix g assume "g \<in> set (groups_spec moves)"
  then obtain k where k: "k \<in> set (map group_key (filter (\<lambda>m. common_suffix m \<noteq> 0) moves))"
      and g: "g = (k, map group_file (filter (\<lambda>m. group_key m = k)
                                       (filter (\<lambda>m. common_suffix m \<noteq> 0) moves)))"
    by (auto simp: groups_spec_def Let_def)
  from k obtain m where "m \<in> set (filter (\<lambda>m. common_suffix m \<noteq> 0) moves)" "group_key m = k"
    by auto
  then have "filter (\<lambda>m. group_key m = k) (filter (\<lambda>m. common_suffix m \<noteq> 0) moves) \<noteq> []"
    by (auto simp: filter_empty_conv)
  with g show "snd g \<noteq> []" by simp
qed

lemma collapse_spec:
  assumes "\<forall>g\<in>set gs. snd g \<noteq> []"
  shows "collapse gs =
           Inr (map (\<lambda>g. (os_path_join (fst (fst g)) (hd (snd g)),
                           os_path_join (snd (fst g)) (hd (snd g))))
                  (filter (\<lambda>g. length (snd g) = 1) gs),
                filter (\<lambda>g. length (snd g) \<ge> 2) gs)"
  using assms
proof (induction gs)
  case Nil
  then show ?case by simp
next
  case (Cons g gs)
  obtain sd dd fs where g: "g = ((sd, dd), fs)" by (cases g) auto
  from Cons.prems g obtain f fs' where fs: "fs = f # fs'" by (cases fs) auto
  from Cons have ih: "collapse gs =
           Inr (map (\<lambda>g. (os_path_join (fst (fst g)) (hd (snd g)),
                           os_path_join (snd (fst g)) (hd (snd g))))
                  (filter (\<lambda>g. length (snd g) = 1) gs),
                filter (\<lambda>g. length (snd g) \<ge> 2) gs)" by simp
  show ?case
  proof (cases "fs' = []")
    case True
    with g fs ih show ?thesis by simp
  next
    case False
    then have "length fs > 1" "length fs \<noteq> 1" "length fs \<ge> 2"
      using fs by (cases fs'; simp)+
    with g ih show ?thesis by simp
  qed
qed

lemma moves_plan_spec:
  assumes "\<forall>m\<in>set moves. parts (fst m) \<noteq> parts (snd m)"
  shows "moves_plan moves = Inr (moves_spec moves)"
proof -
  have g: "foldl (\<lambda>mv m. move_append (group_key m) (group_file m) mv) []
             (filter (\<lambda>m. common_suffix m \<noteq> 0) moves) = groups_spec moves"
    by (simp add: foldl_move_append groups_spec_def Let_def)
  from moves_loop_spec [OF assms, of None "[]" "[]"] g
  have l: "moves_loop None [] [] moves =
      Inr (map (\<lambda>m. (str_path (fst m), str_path (snd m))) (filter (\<lambda>m. common_suffix m = 0) moves),
           groups_spec moves)" by simp
  from collapse_spec [OF groups_spec_nonempty [of moves]] l show ?thesis
    by (simp add: moves_plan_def moves_spec_def)
qed


lemma moveto_one_effect:
  assumes "moveto_one pathjoin py_repr cfg ag AB cmd0 m s = (r, s')"
  shows "calls s' = calls s @ [rclone_exe cfg @ [''moveto''] @ cmd0
                                 @ [pathjoin (remote cfg AB) (fst m), pathjoin (remote cfg AB) (snd m)]]
         \<and> written s' = written s
         \<and> (r = Inr () \<longleftrightarrow>
              returncode (ag (calls s) (rclone_exe cfg @ [''moveto''] @ cmd0
                 @ [pathjoin (remote cfg AB) (fst m), pathjoin (remote cfg AB) (snd m)])) = 0)"
proof -
  let ?c = "[''moveto''] @ cmd0 @ [pathjoin (remote cfg AB) (fst m), pathjoin (remote cfg AB) (snd m)]"
  obtain r1 s1 where c: "call cfg ag ?c False False True s = (r1, s1)"
    by (cases "call cfg ag ?c False False True s") simp
  from call_effect [OF c] c assms show ?thesis
    by (cases r1) (auto simp: moveto_one_def Let_def log_lines_def log_msg_def)
qed

lemma run_moveto_effect:
  assumes "run_moveto pathjoin py_repr cfg ag AB cmd0 ms s = (r, s')"
  shows "(r = Inr () \<longrightarrow>
            calls s' = calls s @ map (\<lambda>m. rclone_exe cfg @ [''moveto''] @ cmd0
                 @ [pathjoin (remote cfg AB) (fst m), pathjoin (remote cfg AB) (snd m)]) ms
            \<and> written s' = written s)
         \<and> ((\<forall>h c. returncode (ag h c) = 0) \<longrightarrow> r = Inr ())"
  using assms
proof (induction ms arbitrary: s)
  case Nil
  then show ?case by simp
next
  case (Cons m ms)
  obtain r1 s1 where o: "moveto_one pathjoin py_repr cfg ag AB cmd0 m s = (r1, s1)"
    by (cases "moveto_one pathjoin py_repr cfg ag AB cmd0 m s") simp
  note e = moveto_one_effect [OF o]
  show ?case
  proof (cases r1)
    case (Inl err)
    with o Cons.prems e show ?thesis by auto
  next
    case (Inr u)
    with o Cons.prems have "run_moveto pathjoin py_repr cfg ag AB cmd0 ms s1 = (r, s')" by simp
    from Cons.IH [OF this] e show ?thesis by simp
  qed
qed

lemma log_msg_calls: "calls (log_msg a t) = calls t"
  by (simp add: log_msg_def)

lemma log_msg_written: "written (log_msg a t) = written t"
  by (simp add: log_msg_def)

lemma fold_log_msg:
  "calls (fold (\<lambda>x. log_msg (a x)) fs t) = calls t"
  "written (fold (\<lambda>x. log_msg (a x)) fs t) = written t"
  by (induction fs arbitrary: t) (simp_all add: log_msg_def)

lemma move_one_effect:
  assumes "move_one pathjoin py_repr cfg ag AB cmd0 ii g s = (r, s')"
  shows "calls s' = calls s @ [rclone_exe cfg @ [''move''] @ cmd0
                   @ [pathjoin (remote cfg AB) (fst (fst g)), pathjoin (remote cfg AB) (snd (fst g)),
                      ''--files-from'', tempdir cfg @ ''move_'' @ str_nat ii @ ''.txt'']]
         \<and> written s' = written s
               @ [(tempdir cfg @ ''move_'' @ str_nat ii @ ''.txt'', join newline (snd g))]
         \<and> ((\<forall>h c. returncode (ag h c) = 0) \<longrightarrow> r = Inr ())"
proof -
  let ?c = "[''move''] @ cmd0
                   @ [pathjoin (remote cfg AB) (fst (fst g)), pathjoin (remote cfg AB) (snd (fst g)),
                      ''--files-from'', tempdir cfg @ ''move_'' @ str_nat ii @ ''.txt'']"
  define s2 where "s2 = fold (\<lambda>file. log_msg [Str (''  '' @ py_repr file)]) (snd g)
     (log_msg [Str (''Grouped Move '' @ py_repr (fst (fst g)) @ '' --> '' @ py_repr (snd (fst g)))] s)"
  define s3 where "s3 = write_file (tempdir cfg @ ''move_'' @ str_nat ii @ ''.txt'')
                          (join newline (snd g)) s2"
  have c3: "calls s3 = calls s"
    and w3: "written s3 = written s
               @ [(tempdir cfg @ ''move_'' @ str_nat ii @ ''.txt'', join newline (snd g))]"
    by (simp_all add: s3_def s2_def write_file_def fold_log_msg log_msg_calls log_msg_written)
  obtain r1 s4 where c: "call cfg ag ?c True True True s3 = (r1, s4)"
    by (cases "call cfg ag ?c True True True s3") simp
  have eq: "move_one pathjoin py_repr cfg ag AB cmd0 ii g s =
      (case r1 of Inl e \<Rightarrow> (Inl e, s4) | Inr _ \<Rightarrow> (Inr (), s4))"
    using c by (simp add: move_one_def Let_def s3_def s2_def)
  from call_effect [OF c] eq assms c3 w3 show ?thesis
    by (cases r1) auto
qed

lemma run_moves_effect:
  assumes "run_moves pathjoin py_repr cfg ag AB cmd0 ii gs s = (r, s')"
  shows "(r = Inr () \<longrightarrow>
            calls s' = calls s @ map (\<lambda>(i, g). rclone_exe cfg @ [''move''] @ cmd0
                   @ [pathjoin (remote cfg AB) (fst (fst g)), pathjoin (remote cfg AB) (snd (fst g)),
                      ''--files-from'', tempdir cfg @ ''move_'' @ str_nat i @ ''.txt''])
                 (enumerate ii gs)
            \<and> written s' = written s @ map (\<lambda>(i, g).
                   (tempdir cfg @ ''move_'' @ str_nat i @ ''.txt'', join newline (snd g)))
                 (enumerate ii gs))
         \<and> ((\<forall>h c. returncode (ag h c) = 0) \<longrightarrow> r = Inr ())"
  using assms
proof (induction gs arbitrary: s ii)
  case Nil
  then show ?case by simp
next
  case (Cons g gs)
  obtain r1 s1 where o: "move_one pathjoin py_repr cfg ag AB cmd0 ii g s = (r1, s1)"
    by (cases "move_one pathjoin py_repr cfg ag AB cmd0 ii g s") simp
  note e = move_one_effect [OF o]
  show ?case
  proof (cases r1)
    case (Inl err)
    with o Cons.prems e show ?thesis by auto
  next
    case (Inr u)
    with o Cons.prems have "run_moves pathjoin py_repr cfg ag AB cmd0 (Suc ii) gs s1 = (r, s')"
      by simp
    from Cons.IH [OF this] e show ?thesis by simp
  qed
qed

lemma moves_dispatch_trace:
  assumes "\<forall>m\<in>set moves. parts (fst m) \<noteq> parts (snd m)"
  shows
    "moves_plan moves = Inr (moves_spec moves)
     \<and> (let moveto = fst (moves_spec moves);
             move = snd (moves_spec moves);
             cmd0 = [''-v'', ''--stats-one-line'', ''--log-format'', '''', ''--no-check-dest'',
                     ''--ignore-times'', ''--no-traverse'']
                      @ rclone_flags cfg @ add_args s @ rclone_flagsAB cfg AB;
             flist = (\<lambda>ii. tempdir cfg @ ''move_'' @ str_nat ii @ ''.txt'');
             r = dbm_moves pathjoin py_repr cfg ag AB moves s
         in (fst r = Inr () \<longrightarrow>
               calls (snd r) = calls s
                 @ map (\<lambda>m. rclone_exe cfg @ [''moveto''] @ cmd0
                          @ [pathjoin (remote cfg AB) (fst m), pathjoin (remote cfg AB) (snd m)])
                     moveto
                 @ map (\<lambda>(ii, g). rclone_exe cfg @ [''move''] @ cmd0
                          @ [pathjoin (remote cfg AB) (fst (fst g)),
                             pathjoin (remote cfg AB) (snd (fst g)),
                             ''--files-from'', flist ii])
                     (enumerate 0 move)
               \<and> written (snd r) = written s
                 @ map (\<lambda>(ii, g). (flist ii, join newline (snd g))) (enumerate 0 move))
          \<and> ((\<forall>h c. returncode (ag h c) = 0) \<longrightarrow> fst r = Inr ()))"
proof -
  define cmd0 where "cmd0 = dbm_cmd0 cfg s AB"
  have cmd0: "[''-v'', ''--stats-one-line'', ''--log-format'', '''', ''--no-check-dest'',
                     ''--ignore-times'', ''--no-traverse'']
                      @ rclone_flags cfg @ add_args s @ rclone_flagsAB cfg AB = cmd0"
    by (simp add: cmd0_def dbm_cmd0_def)
  obtain mt mv where ms: "moves_spec moves = (mt, mv)" by (cases "moves_spec moves")
  have plan: "moves_plan moves = Inr (mt, mv)" using moves_plan_spec [OF assms] ms by simp
  obtain r1 s1 where a: "run_moveto pathjoin py_repr cfg ag AB cmd0 mt s = (r1, s1)"
    by (cases "run_moveto pathjoin py_repr cfg ag AB cmd0 mt s") simp
  obtain r2 s2 where b: "run_moves pathjoin py_repr cfg ag AB cmd0 0 mv s1 = (r2, s2)"
    by (cases "run_moves pathjoin py_repr cfg ag AB cmd0 0 mv s1") simp
  note ea = run_moveto_effect [OF a]
  note eb = run_moves_effect [OF b]
  have eq: "dbm_moves pathjoin py_repr cfg ag AB moves s =
      (case r1 of Inl e \<Rightarrow> (Inl e, s1) | Inr _ \<Rightarrow> (r2, s2))"
    using a b unfolding cmd0_def by (cases r1) (simp_all add: dbm_moves_def plan)
  show ?thesis
    unfolding Let_def cmd0 ms fst_conv snd_conv
    using plan ea eb by (cases r1) (simp_all add: eq)
qed


lemma str_split_no_sep: "\<forall>x\<in>set (str_split c s). c \<notin> set x"
proof (induction s)
  case Nil
  then show ?case by simp
next
  case (Cons a s)
  then show ?case by (cases "str_split c s") auto
qed

lemma path_tail_good: "\<forall>x\<in>set (path_tail s). good x"
  using str_split_no_sep [of "CHR ''/''" s] by (auto simp: path_tail_def good_def)

lemma parts_relative: "path_root s = [] \<Longrightarrow> parts s = path_tail s"
  by (simp add: parts_def)

lemma good_last: "good x \<Longrightarrow> last x \<noteq> CHR ''/''"
  unfolding good_def by (metis last_in_set)

lemma good_hd: "good x \<Longrightarrow> hd x \<noteq> CHR ''/''"
  unfolding good_def by (metis hd_in_set)

lemma good_ne: "good x \<Longrightarrow> x \<noteq> []"
  by (simp add: good_def)

lemma good_join:
  assumes "good x" and "a \<noteq> []" and "last a \<noteq> CHR ''/''"
  shows "os_path_join a x = a @ ''/'' @ x"
  using assms by (cases x) (auto simp: os_path_join_def startswith_def good_def)

lemma foldl_join_good:
  assumes "\<forall>x\<in>set xs. good x" and "a \<noteq> []" and "last a \<noteq> CHR ''/''"
  shows "foldl os_path_join a xs = a @ concat (map (\<lambda>x. ''/'' @ x) xs)"
  using assms
proof (induction xs arbitrary: a)
  case Nil
  then show ?case by simp
next
  case (Cons x xs)
  then have g: "good x" by simp
  have j: "os_path_join a x = a @ ''/'' @ x"
    by (rule good_join [OF g Cons.prems(2,3)])
  have ne: "a @ ''/'' @ x \<noteq> []" using Cons.prems(2) by simp
  have l: "last (a @ ''/'' @ x) \<noteq> CHR ''/''"
    using good_last [OF g] good_ne [OF g] by simp
  from Cons.IH [OF _ ne l] Cons.prems(1) j show ?case by simp
qed

lemma join_list_good:
  assumes "\<forall>x\<in>set (x # xs). good x"
  shows "os_path_join_list (x # xs) = x @ concat (map (\<lambda>x. ''/'' @ x) xs)"
proof -
  from assms have g: "good x" by simp
  then have "x \<noteq> []" "last x \<noteq> CHR ''/''" by (simp_all add: good_ne good_last)
  with foldl_join_good [of xs x] assms show ?thesis by simp
qed

lemma join_split_good:
  assumes "\<forall>x\<in>set ps. good x" and "k \<le> length ps" and "0 < k"
  shows "os_path_join (os_path_join_list (take (length ps - k) ps))
           (os_path_join_list (drop (length ps - k) ps)) = os_path_join_list ps"
proof -
  define as where "as = take (length ps - k) ps"
  define bs where "bs = drop (length ps - k) ps"
  have ps: "ps = as @ bs" by (simp add: as_def bs_def)
  have "length bs = k" using assms(2) by (simp add: bs_def)
  with assms(3) obtain y bs' where bs: "bs = y # bs'" by (cases bs) auto
  have gb: "\<forall>x\<in>set (y # bs'). good x" using assms(1) ps bs by auto
  have ga: "\<forall>x\<in>set as. good x" using assms(1) ps by auto
  have B: "os_path_join_list bs = y @ concat (map (\<lambda>x. ''/'' @ x) bs')"
    unfolding bs by (rule join_list_good [OF gb])
  have gy: "good y" using gb by simp
  then have yne: "y \<noteq> []" "hd y \<noteq> CHR ''/''" by (simp_all add: good_ne good_hd)
  have nstart: "\<not> startswith (os_path_join_list bs) ''/''"
    unfolding B using yne by (cases y) (auto simp: startswith_def)
  have goal: "os_path_join (os_path_join_list as) (os_path_join_list bs) =
                os_path_join_list (as @ bs)"
  proof (cases as)
    case Nil
    have "os_path_join [] (os_path_join_list bs) = os_path_join_list bs"
      using nstart by (simp add: os_path_join_def)
    then show ?thesis using Nil by simp
  next
    case (Cons x as')
    have gx: "\<forall>z\<in>set (x # as'). good z" using ga Cons by simp
    have A: "os_path_join_list as = x @ concat (map (\<lambda>x. ''/'' @ x) as')"
      unfolding Cons by (rule join_list_good [OF gx])
    have ane: "os_path_join_list as \<noteq> []" using gx by (simp add: A good_def)
    have alast: "last (os_path_join_list as) \<noteq> CHR ''/''"
    proof (cases "as' = []")
      case True
      then show ?thesis using gx by (simp add: A good_last)
    next
      case False
      then obtain z zs where r: "as' = zs @ [z]" by (metis rev_exhaust)
      then have "good z" using gx by simp
      then show ?thesis unfolding A r using good_last [of z] good_ne [of z] by simp
    qed
    have all: "\<forall>z\<in>set (x # as' @ y # bs'). good z" using gx gb by auto
    have "os_path_join (os_path_join_list as) (os_path_join_list bs) =
            os_path_join_list as @ ''/'' @ os_path_join_list bs"
      using nstart ane alast by (simp add: os_path_join_def)
    also have "\<dots> = os_path_join_list (x # as' @ y # bs')"
      unfolding A B join_list_good [OF all] by simp
    finally show ?thesis unfolding Cons bs by simp
  qed
  show ?thesis using goal by (simp add: as_def bs_def)
qed

lemma str_path_relative:
  assumes "path_root s = []" and "parts s \<noteq> []"
  shows "str_path s = os_path_join_list (parts s)"
proof -
  from assms obtain x xs where p: "path_tail s = x # xs"
    by (cases "path_tail s") (auto simp: parts_def)
  have g: "\<forall>z\<in>set (x # xs). good z" using path_tail_good [of s] p by simp
  have "str_path s = join ''/'' (x # xs)"
    using assms(1) by (simp add: str_path_def p)
  also have "\<dots> = x @ concat (map (\<lambda>y. ''/'' @ y) xs)" by (rule join_concat)
  also have "\<dots> = os_path_join_list (x # xs)" by (rule join_list_good [OF g, symmetric])
  finally show ?thesis using assms(1) by (simp add: parts_def p)
qed

lemma takeWhile_eq_take:
  "take (length (takeWhile (\<lambda>(a, b). a = b) (zip xs ys))) xs =
   take (length (takeWhile (\<lambda>(a, b). a = b) (zip xs ys))) ys"
  by (induction xs ys rule: list_induct2') auto

lemma common_suffix_drop:
  "drop (length (parts (fst m)) - common_suffix m) (parts (fst m)) =
   drop (length (parts (snd m)) - common_suffix m) (parts (snd m))"
proof -
  let ?k = "common_suffix m"
  have "take ?k (rev (parts (fst m))) = take ?k (rev (parts (snd m)))"
    unfolding common_suffix_def by (rule takeWhile_eq_take)
  then show ?thesis by (simp add: take_rev)
qed

lemma common_suffix_le2: "common_suffix m \<le> length (parts (snd m))"
  unfolding common_suffix_def
  by (metis length_rev length_takeWhile_le length_zip min.cobounded2 order_trans)

lemma common_suffix_le1: "common_suffix m \<le> length (parts (fst m))"
  unfolding common_suffix_def
  by (metis length_rev length_takeWhile_le length_zip min.cobounded1 order_trans)

lemma group_rejoin:
  assumes "common_suffix m \<noteq> 0" and "path_root (fst m) = []" and "path_root (snd m) = []"
  shows "os_path_join (fst (group_key m)) (group_file m) = str_path (fst m)"
    and "os_path_join (snd (group_key m)) (group_file m) = str_path (snd m)"
proof -
  let ?k = "common_suffix m"
  have k: "0 < ?k" using assms(1) by simp
  have g1: "\<forall>x\<in>set (parts (fst m)). good x"
    using path_tail_good [of "fst m"] assms(2) by (simp add: parts_def)
  have g2: "\<forall>x\<in>set (parts (snd m)). good x"
    using path_tail_good [of "snd m"] assms(3) by (simp add: parts_def)
  have ne1: "parts (fst m) \<noteq> []" using common_suffix_le1 [of m] k by auto
  have ne2: "parts (snd m) \<noteq> []" using common_suffix_le2 [of m] k by auto
  show "os_path_join (fst (group_key m)) (group_file m) = str_path (fst m)"
    using join_split_good [OF g1 common_suffix_le1 k] str_path_relative [OF assms(2) ne1]
    by (simp add: group_key_def strip_suffix_def group_file_def)
  have "group_file m = os_path_join_list (drop (length (parts (snd m)) - ?k) (parts (snd m)))"
    by (simp add: group_file_def common_suffix_drop)
  then show "os_path_join (snd (group_key m)) (group_file m) = str_path (snd m)"
    using join_split_good [OF g2 common_suffix_le2 k] str_path_relative [OF assms(3) ne2]
    by (simp add: group_key_def strip_suffix_def)
qed


lemma groups_spec_member:
  assumes "m \<in> set moves" and "common_suffix m \<noteq> 0"
  shows "(group_key m,
          map group_file (filter (\<lambda>n. common_suffix n \<noteq> 0 \<and> group_key n = group_key m) moves))
           \<in> set (groups_spec moves)"
proof -
  let ?grouped = "filter (\<lambda>m. common_suffix m \<noteq> 0) moves"
  have f: "filter (\<lambda>n. common_suffix n \<noteq> 0 \<and> group_key n = group_key m) moves =
           filter (\<lambda>n. group_key n = group_key m) ?grouped"
    by (simp add: conj_commute)
  have "m \<in> set ?grouped" using assms by simp
  then have "group_key m \<in> set (first_seen (map group_key ?grouped))"
    by (simp add: first_seen_def)
  then show ?thesis unfolding f groups_spec_def Let_def by (simp add: image_iff)
qed

lemma groups_spec_distinct: "distinct (map fst (groups_spec moves))"
  by (simp add: groups_spec_def Let_def o_def first_seen_def)

lemma moves_spec_readout:
  "(\<forall>m\<in>set moves. common_suffix m = 0 \<longrightarrow>
       (str_path (fst m), str_path (snd m)) \<in> set (fst (moves_spec moves)))
   \<and> (\<forall>m\<in>set moves. common_suffix m \<noteq> 0 \<longrightarrow>
        (2 \<le> length (filter (\<lambda>n. common_suffix n \<noteq> 0 \<and> group_key n = group_key m) moves) \<longrightarrow>
           (group_key m,
            map group_file (filter (\<lambda>n. common_suffix n \<noteq> 0 \<and> group_key n = group_key m) moves))
             \<in> set (snd (moves_spec moves))) \<and>
        (length (filter (\<lambda>n. common_suffix n \<noteq> 0 \<and> group_key n = group_key m) moves) = 1 \<longrightarrow>
           (os_path_join (fst (group_key m)) (group_file m),
            os_path_join (snd (group_key m)) (group_file m)) \<in> set (fst (moves_spec moves)) \<and>
           (path_root (fst m) = [] \<and> path_root (snd m) = [] \<longrightarrow>
              (str_path (fst m), str_path (snd m)) \<in> set (fst (moves_spec moves)))))
   \<and> distinct (map fst (snd (moves_spec moves)))
   \<and> (\<forall>g\<in>set (snd (moves_spec moves)). 2 \<le> length (snd g) \<and>
         snd g = map group_file
                   (filter (\<lambda>n. common_suffix n \<noteq> 0 \<and> group_key n = fst g) moves))"
proof (intro conjI ballI impI)
  fix m assume "m \<in> set moves" "common_suffix m = 0"
  then show "(str_path (fst m), str_path (snd m)) \<in> set (fst (moves_spec moves))"
    by (auto simp: moves_spec_def)
next
  fix m
  let ?mem = "filter (\<lambda>n. common_suffix n \<noteq> 0 \<and> group_key n = group_key m) moves"
  assume m: "m \<in> set moves" "common_suffix m \<noteq> 0" and l: "2 \<le> length ?mem"
  from groups_spec_member [OF m] l
  show "(group_key m, map group_file ?mem) \<in> set (snd (moves_spec moves))"
    by (simp add: moves_spec_def)
next
  fix m
  let ?mem = "filter (\<lambda>n. common_suffix n \<noteq> 0 \<and> group_key n = group_key m) moves"
  assume m: "m \<in> set moves" "common_suffix m \<noteq> 0" and l: "length ?mem = 1"
  have "m \<in> set ?mem" using m by simp
  moreover from l obtain x where x: "?mem = [x]" by (cases ?mem) auto
  ultimately have mem: "?mem = [m]" by (metis list.set(1) list.simps(15) singletonD)
  let ?g = "(group_key m, map group_file ?mem)"
  have g: "?g \<in> set (groups_spec moves)" by (rule groups_spec_member [OF m])
  define F :: "(string \<times> string) \<times> string list \<Rightarrow> string \<times> string" where
    "F = (\<lambda>g. (os_path_join (fst (fst g)) (hd (snd g)), os_path_join (snd (fst g)) (hd (snd g))))"
  have gin: "?g \<in> set (filter (\<lambda>g. length (snd g) = 1) (groups_spec moves))"
    using g l by simp
  have "F ?g \<in> F ` set (filter (\<lambda>g. length (snd g) = 1) (groups_spec moves))"
    by (rule imageI [OF gin])
  then have "F ?g \<in> set (fst (moves_spec moves))"
    by (simp add: moves_spec_def F_def)
  then show a: "(os_path_join (fst (group_key m)) (group_file m),
            os_path_join (snd (group_key m)) (group_file m)) \<in> set (fst (moves_spec moves))"
    unfolding F_def mem by simp
  assume "path_root (fst m) = [] \<and> path_root (snd m) = []"
  with group_rejoin [OF m(2)] a
  show "(str_path (fst m), str_path (snd m)) \<in> set (fst (moves_spec moves))" by simp
next
  show "distinct (map fst (snd (moves_spec moves)))"
    using groups_spec_distinct [of moves] by (simp add: moves_spec_def distinct_map_filter)
next
  fix g assume "g \<in> set (snd (moves_spec moves))"
  then show "2 \<le> length (snd g)" by (simp add: moves_spec_def)
next
  fix g assume "g \<in> set (snd (moves_spec moves))"
  then have "g \<in> set (groups_spec moves)" by (simp add: moves_spec_def)
  then show "snd g = map group_file
                   (filter (\<lambda>n. common_suffix n \<noteq> 0 \<and> group_key n = fst g) moves)"
    by (auto simp: groups_spec_def Let_def conj_commute)
qed

text \<open>
  Claim C1. For every list of rename pairs whose two paths differ as paths, the loops of the
  stage compute the dispatch of the specification, \<open>moves_spec\<close>. When the stage returns,
  the commands it has run are one \<^verbatim>\<open>moveto\<close> for each pair of the first list and then
  one \<^verbatim>\<open>move src_dir dst_dir --files-from FILE\<close> for each group of the second, and the
  files written are the lists of suffixes, one a line; with an agent whose calls all exit
  with 0 the stage returns. Read out: a pair without a common suffix of components is a
  \<^verbatim>\<open>moveto\<close> of its two paths; a pair with one belongs to the group of its two paths
  without the longest common suffix; a group of two or more pairs is one grouped
  \<^verbatim>\<open>move\<close> whose files are the suffixes of its pairs in order, no two grouped moves
  have the same pair of directories, and every grouped move has at least two files; a
  group of one pair is a \<^verbatim>\<open>moveto\<close> of the two directories joined with the suffix again,
  which for relative paths are the two paths of the pair. (The pool of \<^verbatim>\<open>moveto\<close>
  workers is run in list order; the stage starts once the delete-with-backup call before it
  has returned.)
\<close>

theorem moves_dispatch:
  assumes "\<forall>m\<in>set moves. parts (fst m) \<noteq> parts (snd m)"
  shows
    "(moves_plan moves = Inr (moves_spec moves)
     \<and> (let moveto = fst (moves_spec moves);
             move = snd (moves_spec moves);
             cmd0 = [''-v'', ''--stats-one-line'', ''--log-format'', '''', ''--no-check-dest'',
                     ''--ignore-times'', ''--no-traverse'']
                      @ rclone_flags cfg @ add_args s @ rclone_flagsAB cfg AB;
             flist = (\<lambda>ii. tempdir cfg @ ''move_'' @ str_nat ii @ ''.txt'');
             r = dbm_moves pathjoin py_repr cfg ag AB moves s
         in (fst r = Inr () \<longrightarrow>
               calls (snd r) = calls s
                 @ map (\<lambda>m. rclone_exe cfg @ [''moveto''] @ cmd0
                          @ [pathjoin (remote cfg AB) (fst m), pathjoin (remote cfg AB) (snd m)])
                     moveto
                 @ map (\<lambda>(ii, g). rclone_exe cfg @ [''move''] @ cmd0
                          @ [pathjoin (remote cfg AB) (fst (fst g)),
                             pathjoin (remote cfg AB) (snd (fst g)),
                             ''--files-from'', flist ii])
                     (enumerate 0 move)
               \<and> written (snd r) = written s
                 @ map (\<lambda>(ii, g). (flist ii, join newline (snd g))) (enumerate 0 move))
          \<and> ((\<forall>h c. returncode (ag h c) = 0) \<longrightarrow> fst r = Inr ())))
     \<and> ((\<forall>m\<in>set moves. common_suffix m = 0 \<longrightarrow>
            (str_path (fst m), str_path (snd m)) \<in> set (fst (moves_spec moves)))
        \<and> (\<forall>m\<in>set moves. common_suffix m \<noteq> 0 \<longrightarrow>
             (2 \<le> length (filter (\<lambda>n. common_suffix n \<noteq> 0 \<and> group_key n = group_key m) moves) \<longrightarrow>
                (group_key m,
                 map group_file (filter (\<lambda>n. common_suffix n \<noteq> 0 \<and> group_key n = group_key m) moves))
                  \<in> set (snd (moves_spec moves))) \<and>
             (length (filter (\<lambda>n. common_suffix n \<noteq> 0 \<and> group_key n = group_key m) moves) = 1 \<longrightarrow>
                (os_path_join (fst (group_key m)) (group_file m),
                 os_path_join (snd (group_key m)) (group_file m)) \<in> set (fst (moves_spec moves)) \<and>
                (path_root (fst m) = [] \<and> path_root (snd m) = [] \<longrightarrow>
                   (str_path (fst m), str_path (snd m)) \<in> set (fst (moves_spec moves)))))
        \<and> distinct (map fst (snd (moves_spec moves)))
        \<and> (\<forall>g\<in>set (snd (moves_spec moves)). 2 \<le> length (snd g) \<and>
              snd g = map group_file
                        (filter (\<lambda>n. common_suffix n \<noteq> 0 \<and> group_key n = fst g) moves)))"
  using moves_dispatch_trace [OF assms, where cfg = cfg and s = s and pathjoin = pathjoin
      and py_repr = py_repr and ag = ag and AB = AB]
    moves_spec_readout [of moves]
  by blast

theorem moves_dispatch_witness:
  "moves_plan [(''deep/sub/dir/f1'', ''deeper/sub/dir/f1''),
               (''deep/sub/dir/f2'', ''deeper/sub/dir/f2'')] =
     Inr ([], [((''deep'', ''deeper''), [''sub/dir/f1'', ''sub/dir/f2''])])
   \<and> calls (snd (dbm_moves slash_join quote cfg0 (exit_agent 0) A
                    [(''deep/sub/dir/f1'', ''deeper/sub/dir/f1''),
                     (''deep/sub/dir/f2'', ''deeper/sub/dir/f2'')] new_state)) =
     [[''rclone'', ''move'', ''-v'', ''--stats-one-line'', ''--log-format'', '''',
       ''--no-check-dest'', ''--ignore-times'', ''--no-traverse'', ''A:/deep'', ''A:/deeper'',
       ''--files-from'', ''/tmp/xmove_0.txt'']]
   \<and> written (snd (dbm_moves slash_join quote cfg0 (exit_agent 0) A
                      [(''deep/sub/dir/f1'', ''deeper/sub/dir/f1''),
                       (''deep/sub/dir/f2'', ''deeper/sub/dir/f2'')] new_state)) =
     [(''/tmp/xmove_0.txt'', ''sub/dir/f1'' @ newline @ ''sub/dir/f2'')]"
proof -
  let ?S5 = "[(''deep/sub/dir/f1'', ''deeper/sub/dir/f1''),
              (''deep/sub/dir/f2'', ''deeper/sub/dir/f2'')]"
  have p: "parts ''deep/sub/dir/f1'' = [''deep'', ''sub'', ''dir'', ''f1'']"
      "parts ''deeper/sub/dir/f1'' = [''deeper'', ''sub'', ''dir'', ''f1'']"
      "parts ''deep/sub/dir/f2'' = [''deep'', ''sub'', ''dir'', ''f2'']"
      "parts ''deeper/sub/dir/f2'' = [''deeper'', ''sub'', ''dir'', ''f2'']"
    by (simp_all add: parts_def path_root_def path_tail_def startswith_def)
  have h: "\<forall>m\<in>set ?S5. parts (fst m) \<noteq> parts (snd m)"
    by (simp add: p)
  have sp: "moves_spec ?S5 = ([], [((''deep'', ''deeper''), [''sub/dir/f1'', ''sub/dir/f2''])])"
    by code_simp
  have ok: "\<forall>h c. returncode (exit_agent 0 h c) = 0" by (simp add: exit_agent_def)
  have z: "str_nat 0 = ''0''" by code_simp
  note t = moves_dispatch [OF h, where cfg = cfg0 and s = new_state and ag = "exit_agent 0"
      and AB = A and pathjoin = slash_join and py_repr = quote,
      unfolded Let_def sp fst_conv snd_conv]
  from t [THEN conjunct1] ok show ?thesis
    by (simp add: z enumerate_eq_zip cfg0_def new_state_def slash_join_def rclone_flagsAB_def
          remote_def)
qed

end
